theory Spec2Isabelle
  imports Complex_Main "HOL-Library.AList"
begin

section \<open>Schedule aggregation and windowing engine of app/main.py\<close>

text \<open>
  Modelling conventions.
  \<^item> A Python \<open>float\<close> is modelled by a \<open>real\<close>: arithmetic is exact, there is no NaN and no
    infinity. \<open>1e-9\<close> is the real \<open>1 / 10 ^ 9\<close>. A property below either relates the
    values a function returns to one another, through \<open>py_round3\<close>, \<open>timedelta_hours\<close>
    and \<open>guess_slot_hours\<close> as the code computes them, or is stated for inputs on which
    the float arithmetic of the code is exact.
  \<^item> A naive \<open>datetime\<close> is modelled by the number of microseconds since
    0001-01-01 00:00:00, an \<open>int\<close>; a \<open>timedelta\<close> by its number of microseconds.
    Comparison and subtraction of datetimes are then those of integers.
    \<open>datetime + timedelta\<close> raises \<open>OverflowError\<close> when the result leaves the years 1 to 9999.
  \<^item> A \<open>dict\<close> is an association list in insertion order with pairwise different keys:
    \<open>d[k] = v\<close> is \<open>AList.update k v d\<close> (in place for a known key, at the end for a new one),
    \<open>del d[k]\<close> is \<open>AList.delete k d\<close>, \<open>d.get(k)\<close> is \<open>map_of d k\<close>.
  \<^item> Exceptions are values of \<open>error\<close>; a function that can raise returns \<open>error + 'a\<close>.
\<close>

subsection \<open>Domain models (lines 26 to 47)\<close>

datatype error = OverflowError | KeyError | ValueError

record DataItem =
  name :: string
  value_kw :: real

record ScheduleSlot =
  timestamp :: int
  data :: "DataItem list"

text \<open>The field \<open>cost_analysis\<close> is read by none of the functions below and is left out.\<close>

record OptimizationSchedule =
  schedule :: "ScheduleSlot list"

text \<open>The validator of line 45: \<open>sorted\<close> is stable, as insertion sort by key is.\<close>

definition ensure_sorted :: "ScheduleSlot list \<Rightarrow> ScheduleSlot list" where
  "ensure_sorted v = sort_key timestamp v"

subsection \<open>Library behaviour: rounding, datetime arithmetic, strftime\<close>

text \<open>Rounding to the nearest integer, ties to even: what \<open>round\<close> and \<open>timedelta\<close> do.\<close>

definition round_half_even :: "real \<Rightarrow> int" where
  "round_half_even x =
     (let f = \<lfloor>x\<rfloor>; d = x - of_int f
      in if d < 1 / 2 then f else if 1 / 2 < d then f + 1 else if even f then f else f + 1)"

text \<open>\<open>round(x, 3)\<close>.\<close>

definition py_round3 :: "real \<Rightarrow> real" where
  "py_round3 x = of_int (round_half_even (x * 1000)) / 1000"

text \<open>\<open>delta.total_seconds()\<close> of a timedelta of \<open>d\<close> microseconds.\<close>

definition total_seconds :: "int \<Rightarrow> real" where
  "total_seconds d = of_int d / 1000000"

text \<open>
  \<open>timedelta(hours=h)\<close>: the microseconds of \<open>h\<close> hours, rounded half to even.
  (A timedelta is limited to 999999999 days; the durations built below are gaps between two
  datetimes, or a quarter of an hour, and stay far below that.)
\<close>

definition timedelta_hours :: "real \<Rightarrow> int" where
  "timedelta_hours h = round_half_even (h * 3600000000)"

text \<open>The last representable instant, 9999-12-31 23:59:59.999999.\<close>

definition MAXDT :: int where
  "MAXDT = 315537897599999999"

definition dt_add :: "int \<Rightarrow> int \<Rightarrow> error + int" where
  "dt_add t d = (if 0 \<le> t + d \<and> t + d \<le> MAXDT then Inr (t + d) else Inl OverflowError)"

definition digit_char :: "nat \<Rightarrow> char" where
  "digit_char d = ''0123456789'' ! (d mod 10)"

definition pad2 :: "nat \<Rightarrow> string" where
  "pad2 n = [digit_char (n div 10), digit_char n]"

text \<open>A number in decimal, without padding.\<close>

fun decimal :: "nat \<Rightarrow> string" where
  "decimal n = (if n < 10 then [digit_char n] else decimal (n div 10) @ [digit_char n])"

declare decimal.simps [simp del]

definition hour_of :: "int \<Rightarrow> nat" where
  "hour_of t = nat ((t div 3600000000) mod 24)"

definition minute_of :: "int \<Rightarrow> nat" where
  "minute_of t = nat ((t div 60000000) mod 60)"

definition second_of :: "int \<Rightarrow> nat" where
  "second_of t = nat ((t div 1000000) mod 60)"

definition days_before_month :: "int \<Rightarrow> int" where
  "days_before_month m = [0, 0, 31, 59, 90, 120, 151, 181, 212, 243, 273, 304, 334] ! nat m"

definition days_in_month :: "int \<Rightarrow> int" where
  "days_in_month m = [0, 31, 28, 31, 30, 31, 30, 31, 31, 30, 31, 30, 31] ! nat m"

text \<open>
  The calendar date of a proleptic Gregorian ordinal (day 1 is 0001-01-01), computed as
  the datetime module computes it: 400-year, 100-year and 4-year cycles, then the month
  estimated by \<open>(n + 50) >> 5\<close> and corrected.
\<close>

definition ord2ymd :: "int \<Rightarrow> int \<times> int \<times> int" where
  "ord2ymd ordinal =
     (let n = ordinal - 1;
          n400 = n div 146097; na = n mod 146097;
          n100 = na div 36524; nb = na mod 36524;
          n4 = nb div 1461; nc = nb mod 1461;
          n1 = nc div 365; nd = nc mod 365;
          year = n400 * 400 + 1 + n100 * 100 + n4 * 4 + n1
      in if n1 = 4 \<or> n100 = 4 then (year - 1, 12, 31)
         else
           let leapyear = (n1 = 3 \<and> (n4 \<noteq> 24 \<or> n100 = 3));
               month = (nd + 50) div 32;
               preceding = days_before_month month + (if 2 < month \<and> leapyear then 1 else 0)
           in if nd < preceding
              then (year, month - 1,
                    nd - (preceding - (days_in_month (month - 1)
                                       + (if month - 1 = 2 \<and> leapyear then 1 else 0))) + 1)
              else (year, month, nd - preceding + 1))"

text \<open>
  \<open>strftime("%Y-%m-%d %H:%M:%S")\<close>, line 91. The year is written as the C library of
  Linux writes \<open>%Y\<close>: in decimal without padding, so that a year below 1000 gives a key
  shorter than 19 characters (\<open>1-01-01 00:30:00\<close>). The other fields have two digits.
\<close>

definition strftime_key :: "int \<Rightarrow> string" where
  "strftime_key t =
     (case ord2ymd (t div 86400000000 + 1) of (y, m, d) \<Rightarrow>
        decimal (nat y) @ ''-'' @ pad2 (nat m) @ ''-'' @ pad2 (nat d) @ '' ''
        @ pad2 (hour_of t) @ '':'' @ pad2 (minute_of t) @ '':'' @ pad2 (second_of t))"

text \<open>\<open>strftime('%Hh%M')\<close>, line 152.\<close>

definition strftime_hm :: "int \<Rightarrow> string" where
  "strftime_hm t = pad2 (hour_of t) @ ''h'' @ pad2 (minute_of t)"

text \<open>
  \<open>int(s)\<close> on a string of decimal digits. The strings parsed below are the slices
  \<open>ts[11:13]\<close> of keys written by \<open>strftime_key\<close>: two digits, or a digit and a colon
  when the year has fewer than four digits. Every string that is not made of digits is
  reported as \<open>ValueError\<close> (Python's \<open>int\<close> also reads a sign, surrounding blanks and
  underscores between digits, which such a slice never holds).
\<close>

definition is_digit :: "char \<Rightarrow> bool" where
  "is_digit c = (48 \<le> (of_char c :: nat) \<and> (of_char c :: nat) \<le> 57)"

definition py_int :: "string \<Rightarrow> error + int" where
  "py_int s =
     (if s \<noteq> [] \<and> list_all is_digit s
      then Inr (fold (\<lambda>c acc. acc * 10 + (int (of_char c) - 48)) s 0)
      else Inl ValueError)"

text \<open>
  \<open>max\<close> of the non-empty sequence \<open>x # xs\<close>: the running maximum, replaced by a
  strictly greater item. (On an empty sequence \<open>max\<close> raises; line 100 guards the call.)
\<close>

definition py_max :: "real \<Rightarrow> real list \<Rightarrow> real" where
  "py_max x xs = fold (\<lambda>y m. if m < y then y else m) xs x"

text \<open>\<open>d.get(k, 0.0)\<close>.\<close>

definition get0 :: "('k \<times> real) list \<Rightarrow> 'k \<Rightarrow> real" where
  "get0 d k = (case map_of d k of None \<Rightarrow> 0 | Some v \<Rightarrow> v)"

subsection \<open>Slot-interval inference (lines 68 to 75)\<close>

definition guess_slot_hours :: "OptimizationSchedule \<Rightarrow> real" where
  "guess_slot_hours payload =
     (case map timestamp (schedule payload) of
        t0 # t1 # _ \<Rightarrow>
          (let delta = t1 - t0
           in if 0 < total_seconds delta
              then (let a = total_seconds delta / 3600; b = 1 / 10 ^ 9 in if a < b then b else a)
              else 1 / 4)
      | _ \<Rightarrow> 1 / 4)"

subsection \<open>Aggregator (lines 77 to 103)\<close>

text \<open>The inner loop of lines 93 to 96 over the entries of one slot.\<close>

fun slot_loop :: "DataItem list \<Rightarrow> real \<Rightarrow> real \<times> (string \<times> real) list
    \<Rightarrow> real \<times> (string \<times> real) list" where
  "slot_loop [] slot_h (p_sum, energy_by_load) = (p_sum, energy_by_load)"
| "slot_loop (it # its) slot_h (p_sum, energy_by_load) =
     (let val_kw = value_kw it
      in slot_loop its slot_h
           (p_sum + val_kw,
            AList.update (name it) (get0 energy_by_load (name it) + val_kw * slot_h)
              energy_by_load))"

text \<open>The outer loop of lines 90 to 97 over the slots.\<close>

fun sched_loop :: "ScheduleSlot list \<Rightarrow> real \<Rightarrow> (string \<times> real) list \<times> (string \<times> real) list
    \<Rightarrow> (string \<times> real) list \<times> (string \<times> real) list" where
  "sched_loop [] slot_h (power_by_ts, energy_by_load) = (power_by_ts, energy_by_load)"
| "sched_loop (slot # rest) slot_h (power_by_ts, energy_by_load) =
     (let ts_str = strftime_key (timestamp slot);
          (p_sum, energy_by_load') = slot_loop (data slot) slot_h (0, energy_by_load)
      in sched_loop rest slot_h (AList.update ts_str p_sum power_by_ts, energy_by_load'))"

definition compute_from_schedule :: "OptimizationSchedule
    \<Rightarrow> (string \<times> real) list \<times> (string \<times> real) list \<times> real \<times> real \<times> string list" where
  "compute_from_schedule payload =
     (let slot_h = guess_slot_hours payload;
          (power_by_ts, energy_by_load) = sched_loop (schedule payload) slot_h ([], []);
          total_kwh = py_round3 (sum_list (map snd energy_by_load));
          peak_kw_val = (case map snd power_by_ts of [] \<Rightarrow> 0 | v # vs \<Rightarrow> py_max v vs);
          peak_kw = py_round3 peak_kw_val;
          peak_ts = map fst (filter (\<lambda>(ts, p). \<bar>p - peak_kw_val\<bar> < 1 / 10 ^ 9) power_by_ts)
      in (power_by_ts, energy_by_load, total_kwh, peak_kw, peak_ts))"

subsection \<open>Hourly histogram (lines 109 to 112 of build_24h_csv)\<close>



subsection \<open>Window builder (lines 118 to 149)\<close>

type_synonym windows = "(string \<times> (int \<times> int) list) list"

text \<open>\<open>windows.setdefault(name, []).append(w)\<close>.\<close>

definition setdefault_append :: "windows \<Rightarrow> string \<Rightarrow> int \<times> int \<Rightarrow> windows" where
  "setdefault_append ws n w =
     AList.update n ((case map_of ws n of None \<Rightarrow> [] | Some l \<Rightarrow> l) @ [w]) ws"

text \<open>
  Lines 132 to 135: the loop over the snapshot \<open>list(active_start.keys())\<close>.
  \<open>active_start[name]\<close> raises \<open>KeyError\<close> for a missing key.
\<close>

fun close_absent :: "int \<Rightarrow> string set \<Rightarrow> string list \<Rightarrow> windows \<times> (string \<times> int) list
    \<Rightarrow> error + windows \<times> (string \<times> int) list" where
  "close_absent ts present [] st = Inr st"
| "close_absent ts present (n # ns) (ws, active_start) =
     (if n \<notin> present
      then (case map_of active_start n of
              None \<Rightarrow> Inl KeyError
            | Some start \<Rightarrow>
                close_absent ts present ns
                  (setdefault_append ws n (start, ts), AList.delete n active_start))
      else close_absent ts present ns (ws, active_start))"

text \<open>Lines 138 to 140.\<close>

fun open_present :: "int \<Rightarrow> DataItem list \<Rightarrow> (string \<times> int) list \<Rightarrow> (string \<times> int) list" where
  "open_present ts [] active_start = active_start"
| "open_present ts (it # its) active_start =
     open_present ts its
       (if map_of active_start (name it) = None
        then AList.update (name it) ts active_start else active_start)"

text \<open>Lines 145 to 146.\<close>

fun close_all :: "int \<Rightarrow> (string \<times> int) list \<Rightarrow> windows \<Rightarrow> windows" where
  "close_all last_end [] ws = ws"
| "close_all last_end ((n, st) # rest) ws = close_all last_end rest (setdefault_append ws n (st, last_end))"

text \<open>
  The loop of line 127. The test \<open>i == len(payload.schedule) - 1\<close> holds exactly at the
  slot with no successor. \<open>last_end\<close> is computed there whether or not a window is open.
\<close>

fun windows_loop :: "ScheduleSlot list \<Rightarrow> real \<Rightarrow> windows \<times> (string \<times> int) list
    \<Rightarrow> error + windows \<times> (string \<times> int) list" where
  "windows_loop [] slot_h st = Inr st"
| "windows_loop (slot # rest) slot_h (ws, active_start) =
     (let ts = timestamp slot;
          present = set (map name (data slot))
      in case close_absent ts present (map fst active_start) (ws, active_start) of
           Inl e \<Rightarrow> Inl e
         | Inr (ws1, active1) \<Rightarrow>
             (let active2 = open_present ts (data slot) active1
              in if rest = []
                 then (case dt_add ts (timedelta_hours slot_h) of
                         Inl e \<Rightarrow> Inl e
                       | Inr last_end \<Rightarrow> Inr (close_all last_end active2 ws1, []))
                 else windows_loop rest slot_h (ws1, active2)))"

definition load_windows_15m :: "OptimizationSchedule \<Rightarrow> error + windows" where
  "load_windows_15m payload =
     (case windows_loop (schedule payload) (guess_slot_hours payload) ([], []) of
        Inl e \<Rightarrow> Inl e
      | Inr (ws, active_start) \<Rightarrow> Inr ws)"

subsection \<open>Rendering of windows (lines 151 to 152 and 189 to 197)\<close>

text \<open>The en dash U+2013, as the three bytes of its UTF-8 encoding.\<close>

definition en_dash :: string where
  "en_dash = [CHR 0xE2, CHR 0x80, CHR 0x93]"

definition fmt_range_pt :: "int \<Rightarrow> int \<Rightarrow> string" where
  "fmt_range_pt start_dt end_dt = strftime_hm start_dt @ en_dash @ strftime_hm end_dt"

text \<open>\<open>sep.join(xs)\<close>.\<close>

fun join :: "string \<Rightarrow> string list \<Rightarrow> string" where
  "join sep [] = []"
| "join sep [x] = x"
| "join sep (x # y # ys) = x @ sep @ join sep (y # ys)"

text \<open>The closure \<open>fmt_windows\<close> of \<open>persona_report\<close>, with its free variable \<open>win\<close> as a parameter.\<close>

definition fmt_windows :: "windows \<Rightarrow> string \<Rightarrow> string" where
  "fmt_windows win n =
     (let ranges = map (\<lambda>(a, b). fmt_range_pt a b) (case map_of win n of None \<Rightarrow> [] | Some l \<Rightarrow> l)
      in if ranges = [] then ''''
         else if length ranges = 1 then ranges ! 0
         else if length ranges = 2 then join '' e '' ranges
         else join '', '' (butlast ranges) @ '' e '' @ last ranges)"

subsection \<open>Quantities the properties are stated with\<close>

text \<open>
  The key of a slot, the sum of all the power entries of a slot, and the sum of the power
  entries of a slot that carry a given load name.
\<close>

definition slot_key :: "ScheduleSlot \<Rightarrow> string" where
  "slot_key s = strftime_key (timestamp s)"

definition slot_total :: "ScheduleSlot \<Rightarrow> real" where
  "slot_total s = sum_list (map value_kw (data s))"

definition load_power :: "string \<Rightarrow> ScheduleSlot \<Rightarrow> real" where
  "load_power n s = sum_list (map value_kw (filter (\<lambda>it. name it = n) (data s)))"


text \<open>
  A schedule of three quarter-hour slots, at 08:00, 08:15 and 08:30 of 2024-01-15, in which
  the first two tie at the peak of 3 kW.
\<close>

definition example_tied :: OptimizationSchedule where
  "example_tied =
     \<lparr>schedule =
        [\<lparr>timestamp = 63840902400000000, data = [\<lparr>name = ''A'', value_kw = 1\<rparr>, \<lparr>name = ''B'', value_kw = 2\<rparr>]\<rparr>,
         \<lparr>timestamp = 63840903300000000, data = [\<lparr>name = ''A'', value_kw = 3\<rparr>]\<rparr>,
         \<lparr>timestamp = 63840904200000000, data = [\<lparr>name = ''A'', value_kw = 1\<rparr>]\<rparr>]\<rparr>"

text \<open>A mapping with one, two and three windows.\<close>

definition example_windows :: windows where
  "example_windows =
     [(''oven'', [(29700000000, 32400000000)]),
      (''pump'', [(0, 900000000), (3600000000, 4500000000)]),
      (''heater'', [(0, 900000000), (3600000000, 4500000000), (82800000000, 86400000000)])]"

text \<open>The window list of a load in the builder's output: \<open>windows.get(n, [])\<close>.\<close>

definition wl :: "windows \<Rightarrow> string \<Rightarrow> (int \<times> int) list" where
  "wl ws n = (case map_of ws n of None \<Rightarrow> [] | Some l \<Rightarrow> l)"

text \<open>The keys of a window mapping are pairwise different and no key holds an empty list.\<close>

definition good_windows :: "windows \<Rightarrow> bool" where
  "good_windows ws = (distinct (map fst ws) \<and> (\<forall>n. n \<in> fst ` set ws \<longleftrightarrow> wl ws n \<noteq> []))"

text \<open>The load \<open>n\<close> has an entry in the slot: \<open>n in present\<close> of line 129.\<close>

definition present_in :: "string \<Rightarrow> ScheduleSlot \<Rightarrow> bool" where
  "present_in n s = (n \<in> set (map name (data s)))"

text \<open>
  What one iteration of the loop of line 127 does to one load: its window list and its
  entry in \<open>active_start\<close>. Used to follow each load on its own through the loop.
\<close>

definition step_load :: "int \<Rightarrow> bool \<Rightarrow> (int \<times> int) list \<times> int option
    \<Rightarrow> (int \<times> int) list \<times> int option" where
  "step_load ts pres st =
     (case st of
        (l, Some start) \<Rightarrow> if pres then (l, Some start) else (l @ [(start, ts)], None)
      | (l, None) \<Rightarrow> if pres then (l, Some ts) else (l, None))"

text \<open>
  One load followed through the slots \<open>(timestamp, present)\<close>, the window still open after
  the last slot being closed at \<open>e\<close>.
\<close>

fun track :: "(int \<times> bool) list \<Rightarrow> int \<Rightarrow> (int \<times> int) list \<times> int option
    \<Rightarrow> (int \<times> int) list" where
  "track [] e (l, opn) = (case opn of None \<Rightarrow> l | Some start \<Rightarrow> l @ [(start, e)])"
| "track ((t, pres) # xs) e st = track xs e (step_load t pres st)"

text \<open>The instant \<open>t\<close> lies in one of the half-open windows \<open>[start, end)\<close>.\<close>

definition covered :: "(int \<times> int) list \<Rightarrow> int \<Rightarrow> bool" where
  "covered l t = (\<exists>w \<in> set l. fst w \<le> t \<and> t < snd w)"

text \<open>
  The end instant of line 144, the last timestamp plus the slot duration, is a datetime
  (of the years 1 to 9999); for the empty schedule it is never computed.
\<close>

definition end_representable :: "OptimizationSchedule \<Rightarrow> bool" where
  "end_representable p =
     (schedule p = []
      \<or> (let e = timestamp (last (schedule p)) + timedelta_hours (guess_slot_hours p)
         in 0 \<le> e \<and> e \<le> MAXDT))"

text \<open>
  Three quarter-hour slots: load A in the first and the last, load B in the last only.
\<close>

definition example_gap :: OptimizationSchedule where
  "example_gap =
     \<lparr>schedule =
        [\<lparr>timestamp = 0, data = [\<lparr>name = ''A'', value_kw = 1\<rparr>]\<rparr>,
         \<lparr>timestamp = 900000000, data = []\<rparr>,
         \<lparr>timestamp = 1800000000,
          data = [\<lparr>name = ''A'', value_kw = 1\<rparr>, \<lparr>name = ''B'', value_kw = 2\<rparr>]\<rparr>]\<rparr>"




section \<open>Properties\<close>

subsection \<open>Schedule model\<close>

text \<open>The validator returns the same slots in non-decreasing order of timestamp.\<close>

lemma ensure_sorted_sorted: "sorted (map timestamp (ensure_sorted v))"
  by (simp add: ensure_sorted_def)

lemma ensure_sorted_set: "set (ensure_sorted v) = set v \<and> length (ensure_sorted v) = length v"
  by (simp add: ensure_sorted_def)

subsection \<open>Digits and keys\<close>

lemma mod10_cases:
  obtains "d mod 10 = (0::nat)" | "d mod 10 = 1" | "d mod 10 = 2" | "d mod 10 = 3"
    | "d mod 10 = 4" | "d mod 10 = 5" | "d mod 10 = 6" | "d mod 10 = 7"
    | "d mod 10 = 8" | "d mod 10 = 9"
  by atomize_elim arith

lemma digit_is_digit: "is_digit (digit_char d)"
  by (cases d rule: mod10_cases) (simp_all add: digit_char_def is_digit_def)

lemma digit_val: "int (of_char (digit_char d)) - 48 = int (d mod 10)"
  by (cases d rule: mod10_cases) (simp_all add: digit_char_def)

lemma py_int_pad2: "n < 100 \<Longrightarrow> py_int (pad2 n) = Inr (int n)"
  unfolding py_int_def pad2_def
  apply (simp add: digit_is_digit digit_val)
  by presburger

lemma strftime_key_0800: "strftime_key 63840902400000000 = ''2024-01-15 08:00:00''"
  by code_simp

subsection \<open>Slot-interval inference\<close>

lemma round_half_even_0: "round_half_even 0 = 0"
  by (simp add: round_half_even_def)

lemma py_round3_0: "py_round3 0 = 0"
  by (simp add: py_round3_def round_half_even_0)

text \<open>
  Claim C3. With at least two slots and a positive gap between the first two timestamps,
  the inferred duration is the gap in seconds divided by 3600, raised to \<open>1e-9\<close> when it
  is smaller; in every other case it is exactly 0.25. The result is always positive, and at
  least \<open>1e-9\<close>. The function has no failing branch: it is total.
\<close>

theorem guess_slot_hours_spec:
  "(2 \<le> length (schedule p)
      \<and> 0 < total_seconds (timestamp (schedule p ! 1) - timestamp (schedule p ! 0))
    \<longrightarrow> guess_slot_hours p
         = max (total_seconds (timestamp (schedule p ! 1) - timestamp (schedule p ! 0)) / 3600)
               (1 / 10 ^ 9))
   \<and> (\<not> (2 \<le> length (schedule p)
          \<and> 0 < total_seconds (timestamp (schedule p ! 1) - timestamp (schedule p ! 0)))
      \<longrightarrow> guess_slot_hours p = 1 / 4)
   \<and> 0 < guess_slot_hours p \<and> 1 / 10 ^ 9 \<le> guess_slot_hours p"
proof (cases "schedule p")
  case Nil
  then show ?thesis by (simp add: guess_slot_hours_def)
next
  case (Cons s0 rest)
  note outer = Cons
  show ?thesis
  proof (cases rest)
    case Nil
    with outer show ?thesis by (simp add: guess_slot_hours_def)
  next
    case (Cons s1 rest')
    with outer have sched: "schedule p = s0 # s1 # rest'" by simp
    show ?thesis
    proof (cases "0 < total_seconds (timestamp s1 - timestamp s0)")
      case True
      then show ?thesis
        by (simp add: guess_slot_hours_def sched Let_def max_def)
    next
      case False
      then show ?thesis
        by (simp add: guess_slot_hours_def sched Let_def)
    qed
  qed
qed

theorem guess_slot_hours_spec_witness:
  "guess_slot_hours \<lparr>schedule = [\<lparr>timestamp = 0, data = []\<rparr>, \<lparr>timestamp = 1800000000, data = []\<rparr>]\<rparr>
     = 1 / 2
   \<and> guess_slot_hours \<lparr>schedule = [\<lparr>timestamp = 0, data = []\<rparr>, \<lparr>timestamp = 1, data = []\<rparr>]\<rparr>
     = 1 / 10 ^ 9
   \<and> guess_slot_hours \<lparr>schedule = [\<lparr>timestamp = 5, data = []\<rparr>]\<rparr> = 1 / 4
   \<and> guess_slot_hours \<lparr>schedule = [\<lparr>timestamp = 7, data = []\<rparr>, \<lparr>timestamp = 7, data = []\<rparr>]\<rparr>
     = 1 / 4"
  using
    guess_slot_hours_spec
      [of "\<lparr>schedule = [\<lparr>timestamp = 0, data = []\<rparr>, \<lparr>timestamp = 1800000000, data = []\<rparr>]\<rparr>"]
    guess_slot_hours_spec
      [of "\<lparr>schedule = [\<lparr>timestamp = 0, data = []\<rparr>, \<lparr>timestamp = 1, data = []\<rparr>]\<rparr>"]
    guess_slot_hours_spec [of "\<lparr>schedule = [\<lparr>timestamp = 5, data = []\<rparr>]\<rparr>"]
    guess_slot_hours_spec
      [of "\<lparr>schedule = [\<lparr>timestamp = 7, data = []\<rparr>, \<lparr>timestamp = 7, data = []\<rparr>]\<rparr>"]
  by (simp add: total_seconds_def)

subsection \<open>Aggregator: what the two loops compute\<close>

lemma py_max_Max: "py_max x xs = Max (set (x # xs))"
proof -
  have "(\<lambda>y m. if m < y then y else m) = (max :: real \<Rightarrow> real \<Rightarrow> real)"
    by (auto simp: fun_eq_iff max_def)
  then show ?thesis
    unfolding py_max_def by (simp only: Max.set_eq_fold)
qed


lemma get0_update: "get0 (AList.update k v al) n = (if n = k then v else get0 al n)"
  by (simp add: get0_def update_conv')

lemma slot_loop_fst:
  "fst (slot_loop its h (ps, e)) = ps + sum_list (map value_kw its)"
  by (induction its arbitrary: ps e) (simp_all add: Let_def)


lemma slot_loop_get0:
  "get0 (snd (slot_loop its h (ps, e))) n
     = get0 e n + sum_list (map value_kw (filter (\<lambda>it. name it = n) its)) * h"
  by (induction its arbitrary: ps e) (simp_all add: Let_def get0_update ring_distribs)

lemma slot_loop_keys:
  "fst ` set (snd (slot_loop its h (ps, e))) = fst ` set e \<union> name ` set its"
  by (induction its arbitrary: ps e) (auto simp: Let_def dom_update)

lemma slot_loop_distinct:
  "distinct (map fst e) \<Longrightarrow> distinct (map fst (snd (slot_loop its h (ps, e))))"
  by (induction its arbitrary: ps e) (simp_all add: Let_def distinct_update)

lemma sched_loop_step:
  "sched_loop (s # rest) h (pbt, e)
     = sched_loop rest h (AList.update (slot_key s) (slot_total s) pbt,
                          snd (slot_loop (data s) h (0, e)))"
  using slot_loop_fst [of "data s" h 0 e]
  by (auto simp: Let_def slot_key_def slot_total_def split: prod.splits)


lemma sched_loop_get0:
  "get0 (snd (sched_loop ss h (pbt, e))) n
     = get0 e n + sum_list (map (load_power n) ss) * h"
proof (induction ss arbitrary: pbt e)
  case Nil
  show ?case by simp
next
  case (Cons s ss)
  show ?case
    unfolding sched_loop_step Cons.IH
    by (simp add: slot_loop_get0 load_power_def [symmetric] ring_distribs)
qed

lemma sched_loop_keys:
  "fst ` set (snd (sched_loop ss h (pbt, e)))
     = fst ` set e \<union> (\<Union>s \<in> set ss. name ` set (data s))"
proof (induction ss arbitrary: pbt e)
  case Nil
  show ?case by simp
next
  case (Cons s ss)
  show ?case
    unfolding sched_loop_step Cons.IH
    by (auto simp: slot_loop_keys)
qed

lemma sched_loop_map_of:
  "map_of (fst (sched_loop ss h (pbt, e)))
     = map_of pbt ++ map_of (rev (map (\<lambda>s. (slot_key s, slot_total s)) ss))"
proof (induction ss arbitrary: pbt e)
  case Nil
  show ?case by simp
next
  case (Cons s ss)
  show ?case
    unfolding sched_loop_step Cons.IH
    by (simp add: update_conv')
qed

lemma sched_loop_pbt_distinct:
  "distinct (map fst pbt) \<Longrightarrow> distinct (map fst (fst (sched_loop ss h (pbt, e))))"
proof (induction ss arbitrary: pbt e)
  case Nil
  then show ?case by simp
next
  case (Cons s ss)
  show ?case
    unfolding sched_loop_step
    by (rule Cons.IH) (simp add: distinct_update Cons.prems)
qed

lemma update_fresh: "k \<notin> fst ` set al \<Longrightarrow> AList.update k v al = al @ [(k, v)]"
  by (induction al) auto

lemma sched_loop_fresh:
  "distinct (map slot_key ss) \<Longrightarrow> slot_key ` set ss \<inter> fst ` set pbt = {}
   \<Longrightarrow> fst (sched_loop ss h (pbt, e)) = pbt @ map (\<lambda>s. (slot_key s, slot_total s)) ss"
proof (induction ss arbitrary: pbt e)
  case Nil
  show ?case by simp
next
  case (Cons s ss)
  have fresh: "slot_key s \<notin> fst ` set pbt"
    using Cons.prems(2) by auto
  have "slot_key ` set ss \<inter> fst ` set (pbt @ [(slot_key s, slot_total s)]) = {}"
    using Cons.prems by auto
  with Cons.prems(1) show ?case
    unfolding sched_loop_step update_fresh [OF fresh]
    by (simp add: Cons.IH)
qed

lemma sched_loop_pbt_empty:
  "fst (sched_loop ss h (pbt, e)) = [] \<longleftrightarrow> ss = [] \<and> pbt = []"
proof (induction ss arbitrary: pbt e)
  case Nil
  show ?case by simp
next
  case (Cons s ss)
  show ?case
    unfolding sched_loop_step Cons.IH by simp
qed


lemma compute_unfold:
  "compute_from_schedule p =
     (let pbt = fst (sched_loop (schedule p) (guess_slot_hours p) ([], []));
          ebl = snd (sched_loop (schedule p) (guess_slot_hours p) ([], []));
          m = (case map snd pbt of [] \<Rightarrow> 0 | v # vs \<Rightarrow> py_max v vs)
      in (pbt, ebl, py_round3 (sum_list (map snd ebl)), py_round3 m,
          map fst (filter (\<lambda>(ts, p). \<bar>p - m\<bar> < 1 / 10 ^ 9) pbt)))"
  by (simp add: compute_from_schedule_def Let_def split: prod.splits)

lemma peak_val_Max:
  "(case map snd pbt of [] \<Rightarrow> 0 | v # vs \<Rightarrow> py_max v vs)
     = (if pbt = [] then 0 else Max (snd ` set pbt))"
  by (cases pbt) (simp_all add: py_max_Max)

lemma set_peak_filter:
  "set (map fst (filter (\<lambda>(ts, p). \<bar>p - m\<bar> < e) pbt))
     = {ts. \<exists>v. (ts, v) \<in> set pbt \<and> \<bar>v - m\<bar> < e}"
  by force

lemma strftime_key_0815: "strftime_key 63840903300000000 = ''2024-01-15 08:15:00''"
  by code_simp

lemma strftime_key_0830: "strftime_key 63840904200000000 = ''2024-01-15 08:30:00''"
  by code_simp

lemma map_of_get0:
  "map_of al n = (if n \<in> fst ` set al then Some (get0 al n) else None)"
  by (auto simp: get0_def map_of_eq_None_iff split: option.splits)

lemma distinct_key_timestamps:
  "distinct (map slot_key ss) \<Longrightarrow> distinct (map timestamp ss)"
proof -
  assume "distinct (map slot_key ss)"
  then have "distinct (map (strftime_key \<circ> timestamp) ss)"
    by (simp add: slot_key_def [abs_def] comp_def)
  then show ?thesis
    by (auto simp: distinct_map dest: inj_on_imageI2)
qed

lemma compute_components:
  assumes "compute_from_schedule p = (pbt, ebl, tot, kw, pts)"
  shows "pbt = fst (sched_loop (schedule p) (guess_slot_hours p) ([], []))"
    and "ebl = snd (sched_loop (schedule p) (guess_slot_hours p) ([], []))"
    and "tot = py_round3 (sum_list (map snd ebl))"
    and "kw = py_round3 (if pbt = [] then 0 else Max (snd ` set pbt))"
    and "pts = map fst
           (filter (\<lambda>(ts, p). \<bar>p - (if pbt = [] then 0 else Max (snd ` set pbt))\<bar> < 1 / 10 ^ 9)
              pbt)"
proof -
  from assms show a: "pbt = fst (sched_loop (schedule p) (guess_slot_hours p) ([], []))"
    by (auto simp: compute_unfold Let_def)
  from assms show b: "ebl = snd (sched_loop (schedule p) (guess_slot_hours p) ([], []))"
    by (auto simp: compute_unfold Let_def)
  from assms show "tot = py_round3 (sum_list (map snd ebl))"
    unfolding compute_unfold Let_def b [symmetric] by simp
  from assms show "kw = py_round3 (if pbt = [] then 0 else Max (snd ` set pbt))"
    unfolding compute_unfold Let_def peak_val_Max a [symmetric] by simp
  from assms show "pts = map fst
           (filter (\<lambda>(ts, p). \<bar>p - (if pbt = [] then 0 else Max (snd ` set pbt))\<bar> < 1 / 10 ^ 9)
              pbt)"
    unfolding compute_unfold Let_def peak_val_Max a [symmetric] by simp
qed

lemma compute_example_tied:
  "compute_from_schedule example_tied
     = ([(''2024-01-15 08:00:00'', 3), (''2024-01-15 08:15:00'', 3), (''2024-01-15 08:30:00'', 1)],
        [(''A'', 5 / 4), (''B'', 1 / 2)], 7 / 4, 3,
        [''2024-01-15 08:00:00'', ''2024-01-15 08:15:00''])"
  by code_simp

lemma example_tied_sorted: "sorted (map timestamp (schedule example_tied))"
  by (simp add: example_tied_def)

lemma example_tied_keys: "distinct (map slot_key (schedule example_tied))"
  by (simp add: example_tied_def slot_key_def strftime_key_0800 strftime_key_0815 strftime_key_0830)


text \<open>
  Claim C1. The reported peak is the maximum of the values of \<open>power_by_ts\<close>, rounded to
  three decimals, and 0 for the empty schedule. The reported peak timestamps are exactly the
  keys of \<open>power_by_ts\<close> whose unrounded value is less than \<open>1e-9\<close> away from the unrounded
  maximum. \<open>power_by_ts\<close> has pairwise different keys, and the value under a key is the sum
  of the power entries of the last slot with that key.
\<close>

theorem peak_spec:
  assumes "compute_from_schedule p = (power_by_ts, energy_by_load, total_kwh, peak_kw, peak_ts)"
  shows "(schedule p = [] \<longrightarrow> peak_kw = 0)
    \<and> (schedule p \<noteq> [] \<longrightarrow> peak_kw = py_round3 (Max (snd ` set power_by_ts)))
    \<and> set peak_ts
        = {ts. \<exists>v. (ts, v) \<in> set power_by_ts
             \<and> \<bar>v - (if schedule p = [] then 0 else Max (snd ` set power_by_ts))\<bar> < 1 / 10 ^ 9}
    \<and> (power_by_ts = [] \<longleftrightarrow> schedule p = [])
    \<and> distinct (map fst power_by_ts)
    \<and> map_of power_by_ts
        = map_of (rev (map (\<lambda>s. (slot_key s, slot_total s)) (schedule p)))"
proof -
  let ?h = "guess_slot_hours p"
  let ?m = "if power_by_ts = [] then 0 else Max (snd ` set power_by_ts)"
  from assms have pbt: "power_by_ts = fst (sched_loop (schedule p) ?h ([], []))"
    by (auto simp: compute_unfold Let_def)
  from assms have kw: "peak_kw = py_round3 ?m"
    unfolding compute_unfold Let_def peak_val_Max pbt [symmetric] by simp
  from assms
  have ts: "peak_ts = map fst (filter (\<lambda>(ts, p). \<bar>p - ?m\<bar> < 1 / 10 ^ 9) power_by_ts)"
    unfolding compute_unfold Let_def peak_val_Max pbt [symmetric] by simp
  have emp: "power_by_ts = [] \<longleftrightarrow> schedule p = []"
    unfolding pbt by (simp add: sched_loop_pbt_empty)
  have dist: "distinct (map fst power_by_ts)"
    unfolding pbt by (rule sched_loop_pbt_distinct) simp
  have mp: "map_of power_by_ts
      = map_of (rev (map (\<lambda>s. (slot_key s, slot_total s)) (schedule p)))"
    unfolding pbt by (simp add: sched_loop_map_of)
  have mem: "set peak_ts = {ts. \<exists>v. (ts, v) \<in> set power_by_ts \<and> \<bar>v - ?m\<bar> < 1 / 10 ^ 9}"
    unfolding ts by (rule set_peak_filter)
  from kw mem emp dist mp show ?thesis
    by (simp add: py_round3_0)
qed

text \<open>The claim C1 at a schedule with a tied peak, and at the empty schedule.\<close>

theorem peak_spec_witness:
  "compute_from_schedule
     \<lparr>schedule =
        [\<lparr>timestamp = 63840902400000000, data = [\<lparr>name = ''A'', value_kw = 1\<rparr>, \<lparr>name = ''B'', value_kw = 2\<rparr>]\<rparr>,
         \<lparr>timestamp = 63840903300000000, data = [\<lparr>name = ''A'', value_kw = 3\<rparr>]\<rparr>,
         \<lparr>timestamp = 63840904200000000, data = [\<lparr>name = ''A'', value_kw = 1\<rparr>]\<rparr>]\<rparr>
     = ([(''2024-01-15 08:00:00'', 3), (''2024-01-15 08:15:00'', 3), (''2024-01-15 08:30:00'', 1)],
        [(''A'', 5 / 4), (''B'', 1 / 2)], 7 / 4, 3,
        [''2024-01-15 08:00:00'', ''2024-01-15 08:15:00''])
   \<and> 3 = py_round3 (Max (snd ` set [(''2024-01-15 08:00:00'', 3), (''2024-01-15 08:15:00'', 3),
                                      (''2024-01-15 08:30:00'', 1)]))
   \<and> set [''2024-01-15 08:00:00'', ''2024-01-15 08:15:00'']
       = {ts. \<exists>v. (ts, v) \<in> set [(''2024-01-15 08:00:00'', 3::real), (''2024-01-15 08:15:00'', 3),
                                   (''2024-01-15 08:30:00'', 1)]
              \<and> \<bar>v - Max (snd ` set [(''2024-01-15 08:00:00'', 3), (''2024-01-15 08:15:00'', 3),
                                      (''2024-01-15 08:30:00'', 1)])\<bar> < 1 / 10 ^ 9}
   \<and> compute_from_schedule \<lparr>schedule = []\<rparr> = ([], [], 0, 0, [])"
proof -
  have c: "compute_from_schedule
     \<lparr>schedule =
        [\<lparr>timestamp = 63840902400000000, data = [\<lparr>name = ''A'', value_kw = 1\<rparr>, \<lparr>name = ''B'', value_kw = 2\<rparr>]\<rparr>,
         \<lparr>timestamp = 63840903300000000, data = [\<lparr>name = ''A'', value_kw = 3\<rparr>]\<rparr>,
         \<lparr>timestamp = 63840904200000000, data = [\<lparr>name = ''A'', value_kw = 1\<rparr>]\<rparr>]\<rparr>
     = ([(''2024-01-15 08:00:00'', 3), (''2024-01-15 08:15:00'', 3), (''2024-01-15 08:30:00'', 1)],
        [(''A'', 5 / 4), (''B'', 1 / 2)], 7 / 4, 3,
        [''2024-01-15 08:00:00'', ''2024-01-15 08:15:00''])"
    by code_simp
  have c0: "compute_from_schedule \<lparr>schedule = []\<rparr> = ([], [], 0, 0, [])"
    by (simp add: compute_from_schedule_def py_round3_0)
  have ne: "schedule
     \<lparr>schedule =
        [\<lparr>timestamp = 63840902400000000, data = [\<lparr>name = ''A'', value_kw = 1\<rparr>, \<lparr>name = ''B'', value_kw = 2\<rparr>]\<rparr>,
         \<lparr>timestamp = 63840903300000000, data = [\<lparr>name = ''A'', value_kw = 3\<rparr>]\<rparr>,
         \<lparr>timestamp = 63840904200000000, data = [\<lparr>name = ''A'', value_kw = 1\<rparr>]\<rparr>]\<rparr> \<noteq> []"
    by simp
  note w = peak_spec [OF c]
  note a = w [THEN conjunct2, THEN conjunct1, rule_format, OF ne]
  have b: "set [''2024-01-15 08:00:00'', ''2024-01-15 08:15:00'']
       = {ts. \<exists>v. (ts, v) \<in> set [(''2024-01-15 08:00:00'', 3::real), (''2024-01-15 08:15:00'', 3),
                                   (''2024-01-15 08:30:00'', 1)]
              \<and> \<bar>v - Max (snd ` set [(''2024-01-15 08:00:00'', 3), (''2024-01-15 08:15:00'', 3),
                                      (''2024-01-15 08:30:00'', 1)])\<bar> < 1 / 10 ^ 9}"
    using w [THEN conjunct2, THEN conjunct2, THEN conjunct1]
    by (subst (asm) if_not_P [OF ne]) assumption
  show ?thesis
    using c a b c0 by (intro conjI)
qed

text \<open>
  Claim C6, as amended. The aggregator has no mapping per slot: every entry of a slot is
  added. The value stored under a timestamp key is the sum of all the power entries of the
  (last) slot with that key, and the energy of a load is the slot duration times the sum,
  over all slots, of all the entries that carry its name. Entries that repeat a load name
  within one slot are therefore summed, and nothing is detected or rejected.
\<close>

theorem entries_are_summed:
  assumes "compute_from_schedule p = (power_by_ts, energy_by_load, total_kwh, peak_kw, peak_ts)"
  shows "map_of power_by_ts
           = map_of (rev (map (\<lambda>s. (slot_key s, slot_total s)) (schedule p)))
    \<and> (\<forall>n. map_of energy_by_load n
            = (if \<exists>s \<in> set (schedule p). n \<in> name ` set (data s)
               then Some (sum_list (map (load_power n) (schedule p)) * guess_slot_hours p)
               else None))"
proof -
  let ?h = "guess_slot_hours p"
  from assms have pbt: "power_by_ts = fst (sched_loop (schedule p) ?h ([], []))"
    and ebl: "energy_by_load = snd (sched_loop (schedule p) ?h ([], []))"
    by (auto simp: compute_unfold Let_def)
  have mp: "map_of power_by_ts
      = map_of (rev (map (\<lambda>s. (slot_key s, slot_total s)) (schedule p)))"
    unfolding pbt by (simp add: sched_loop_map_of)
  have keys: "fst ` set energy_by_load = (\<Union>s \<in> set (schedule p). name ` set (data s))"
    unfolding ebl by (simp add: sched_loop_keys)
  have val: "get0 energy_by_load n = sum_list (map (load_power n) (schedule p)) * ?h" for n
    unfolding ebl sched_loop_get0 by (simp add: get0_def)
  have "map_of energy_by_load n
      = (if \<exists>s \<in> set (schedule p). n \<in> name ` set (data s)
         then Some (sum_list (map (load_power n) (schedule p)) * ?h) else None)" for n
    unfolding map_of_get0 [of energy_by_load n] keys val by simp
  with mp show ?thesis by blast
qed

text \<open>
  The claim C6 as stated (the last value wins) fails: one slot holds the load A twice, at
  1 kW and then at 2 kW. The total of the slot is 3 kW, not 2, and the energy of A is
  0.75 kWh at the default quarter hour, not 0.5.
\<close>

theorem last_value_wins_counterexample:
  "compute_from_schedule
     \<lparr>schedule = [\<lparr>timestamp = 63840902400000000,
                    data = [\<lparr>name = ''A'', value_kw = 1\<rparr>, \<lparr>name = ''A'', value_kw = 2\<rparr>]\<rparr>]\<rparr>
     = ([(''2024-01-15 08:00:00'', 3)], [(''A'', 3 / 4)], 3 / 4, 3, [''2024-01-15 08:00:00''])
   \<and> guess_slot_hours
       \<lparr>schedule = [\<lparr>timestamp = 63840902400000000,
                      data = [\<lparr>name = ''A'', value_kw = 1\<rparr>, \<lparr>name = ''A'', value_kw = 2\<rparr>]\<rparr>]\<rparr>
     = 1 / 4
   \<and> (3 :: real) \<noteq> 2 \<and> (3 / 4 :: real) \<noteq> 2 * (1 / 4)"
  by (simp add: compute_from_schedule_def guess_slot_hours_def strftime_key_0800 get0_def
      py_round3_def round_half_even_def py_max_def)

text \<open>The amended claim at that schedule.\<close>

theorem entries_are_summed_witness:
  "compute_from_schedule
     \<lparr>schedule = [\<lparr>timestamp = 63840902400000000,
                    data = [\<lparr>name = ''A'', value_kw = 1\<rparr>, \<lparr>name = ''A'', value_kw = 2\<rparr>]\<rparr>]\<rparr>
     = ([(''2024-01-15 08:00:00'', 3)], [(''A'', 3 / 4)], 3 / 4, 3, [''2024-01-15 08:00:00''])
   \<and> map_of [(''A'', 3 / 4 :: real)] ''A''
     = Some (sum_list (map (load_power ''A'')
               [\<lparr>timestamp = 63840902400000000,
                 data = [\<lparr>name = ''A'', value_kw = 1\<rparr>, \<lparr>name = ''A'', value_kw = 2\<rparr>]\<rparr>]) * (1 / 4))
   \<and> load_power ''A''
        \<lparr>timestamp = 63840902400000000, data = [\<lparr>name = ''A'', value_kw = 1\<rparr>, \<lparr>name = ''A'', value_kw = 2\<rparr>]\<rparr> = 3"
proof -
  let ?p = "\<lparr>schedule = [\<lparr>timestamp = 63840902400000000,
                    data = [\<lparr>name = ''A'', value_kw = 1\<rparr>, \<lparr>name = ''A'', value_kw = 2\<rparr>]\<rparr>]\<rparr>"
  have c: "compute_from_schedule ?p
     = ([(''2024-01-15 08:00:00'', 3)], [(''A'', 3 / 4)], 3 / 4, 3, [''2024-01-15 08:00:00''])"
    by code_simp
  have g: "guess_slot_hours ?p = 1 / 4"
    by (simp add: guess_slot_hours_def)
  from entries_are_summed [OF c, THEN conjunct2, THEN spec, of "''A''"]
  have "map_of [(''A'', 3 / 4 :: real)] ''A''
     = Some (sum_list (map (load_power ''A'') (schedule ?p)) * guess_slot_hours ?p)"
    by simp
  then show ?thesis
    using c unfolding g by (simp add: load_power_def)
qed

text \<open>
  Claim C9. For a schedule sorted by timestamp whose slots have pairwise different keys,
  \<open>peak_ts\<close> lists the keys of the peak slots in schedule order, and the timestamps of
  those slots are strictly ascending.
\<close>

theorem peak_ts_schedule_order:
  assumes "sorted (map timestamp (schedule p))"
    and "distinct (map slot_key (schedule p))"
    and "compute_from_schedule p = (power_by_ts, energy_by_load, total_kwh, peak_kw, peak_ts)"
  shows "peak_ts
      = map slot_key
          (filter
            (\<lambda>s. \<bar>slot_total s
                   - (if schedule p = [] then 0 else Max (slot_total ` set (schedule p)))\<bar>
                 < 1 / 10 ^ 9)
            (schedule p))
    \<and> sorted_wrt (<)
        (map timestamp
          (filter
            (\<lambda>s. \<bar>slot_total s
                   - (if schedule p = [] then 0 else Max (slot_total ` set (schedule p)))\<bar>
                 < 1 / 10 ^ 9)
            (schedule p)))"
proof -
  let ?h = "guess_slot_hours p"
  let ?ss = "schedule p"
  let ?m = "if ?ss = [] then 0 else Max (slot_total ` set ?ss)"
  let ?P = "\<lambda>s. \<bar>slot_total s - ?m\<bar> < 1 / 10 ^ 9"
  have pbt: "power_by_ts = map (\<lambda>s. (slot_key s, slot_total s)) ?ss"
  proof -
    from assms(3) have "power_by_ts = fst (sched_loop ?ss ?h ([], []))"
      by (rule compute_components)
    with assms(2) show ?thesis
      by (simp add: sched_loop_fresh)
  qed
  have m: "(if power_by_ts = [] then 0 else Max (snd ` set power_by_ts)) = ?m"
    unfolding pbt by (simp add: image_image)
  have "peak_ts = map fst (filter (\<lambda>(ts, p). \<bar>p - ?m\<bar> < 1 / 10 ^ 9) power_by_ts)"
    using compute_components(5) [OF assms(3)] unfolding m .
  then have ts: "peak_ts = map slot_key (filter ?P ?ss)"
    unfolding pbt by (simp add: filter_map comp_def)
  have "sorted_wrt (<) (map timestamp ?ss)"
    using assms(1) distinct_key_timestamps [OF assms(2)] by (simp add: strict_sorted_iff)
  then have "sorted_wrt (\<lambda>a b. timestamp a < timestamp b) (filter ?P ?ss)"
    unfolding sorted_wrt_map by (rule sorted_wrt_filter)
  then have "sorted_wrt (<) (map timestamp (filter ?P ?ss))"
    by (simp add: sorted_wrt_map)
  with ts show ?thesis by simp
qed

text \<open>The claim C9 at the schedule \<open>example_tied\<close>.\<close>

theorem peak_ts_schedule_order_witness:
  "sorted (map timestamp (schedule example_tied))
   \<and> distinct (map slot_key (schedule example_tied))
   \<and> compute_from_schedule example_tied
     = ([(''2024-01-15 08:00:00'', 3), (''2024-01-15 08:15:00'', 3), (''2024-01-15 08:30:00'', 1)],
        [(''A'', 5 / 4), (''B'', 1 / 2)], 7 / 4, 3,
        [''2024-01-15 08:00:00'', ''2024-01-15 08:15:00''])
   \<and> [''2024-01-15 08:00:00'', ''2024-01-15 08:15:00'']
       = map slot_key [\<lparr>timestamp = 63840902400000000, data = [\<lparr>name = ''A'', value_kw = 1\<rparr>, \<lparr>name = ''B'', value_kw = 2\<rparr>]\<rparr>,
                       \<lparr>timestamp = 63840903300000000, data = [\<lparr>name = ''A'', value_kw = 3\<rparr>]\<rparr>]
   \<and> sorted_wrt (<) (map timestamp
         [\<lparr>timestamp = 63840902400000000, data = [\<lparr>name = ''A'', value_kw = 1\<rparr>, \<lparr>name = ''B'', value_kw = 2\<rparr>]\<rparr>,
          \<lparr>timestamp = 63840903300000000, data = [\<lparr>name = ''A'', value_kw = 3\<rparr>]\<rparr>])"
proof -
  have flt: "filter
            (\<lambda>s. \<bar>slot_total s
                   - (if schedule example_tied = [] then 0
                      else Max (slot_total ` set (schedule example_tied)))\<bar>
                 < 1 / 10 ^ 9)
            (schedule example_tied)
      = [\<lparr>timestamp = 63840902400000000, data = [\<lparr>name = ''A'', value_kw = 1\<rparr>, \<lparr>name = ''B'', value_kw = 2\<rparr>]\<rparr>,
         \<lparr>timestamp = 63840903300000000, data = [\<lparr>name = ''A'', value_kw = 3\<rparr>]\<rparr>]"
    by (simp add: example_tied_def slot_total_def)
  show ?thesis
    using example_tied_sorted example_tied_keys compute_example_tied
      peak_ts_schedule_order [OF example_tied_sorted example_tied_keys compute_example_tied]
    unfolding flt by blast
qed

subsection \<open>Hourly histogram\<close>





lemma hour_of_lt: "hour_of t < 24"
  by (simp add: hour_of_def)















subsection \<open>Rendering of windows\<close>

lemma minute_of_lt: "minute_of t < 60"
  by (simp add: minute_of_def)

lemma join_snoc:
  "xs \<noteq> [] \<Longrightarrow> join sep (xs @ [x]) = concat (map (\<lambda>y. y @ sep) xs) @ x"
proof (induction xs)
  case Nil
  then show ?case by simp
next
  case (Cons y ys)
  show ?case
  proof (cases ys)
    case Nil
    then show ?thesis by simp
  next
    case (Cons z zs)
    with Cons.IH have "join sep (ys @ [x]) = concat (map (\<lambda>y. y @ sep) ys) @ x"
      by simp
    with Cons show ?thesis by simp
  qed
qed

text \<open>
  Claim C8. A window is rendered as the two-digit hour, \<open>h\<close>, the two-digit minute of its
  start, an en dash, and the same for its end; hours are below 24 and minutes below 60, and
  a two-digit field is zero-padded (it has two decimal digits and reads back as the number).
  For a load with one window the text is that window; with two windows they are joined by
  \<open>" e "\<close>; with three or more, every window before the last two is followed by \<open>", "\<close>,
  and the last two are joined by \<open>" e "\<close>.
\<close>

theorem fmt_windows_spec:
  "fmt_range_pt a b
     = pad2 (hour_of a) @ ''h'' @ pad2 (minute_of a) @ [CHR 0xE2, CHR 0x80, CHR 0x93]
       @ pad2 (hour_of b) @ ''h'' @ pad2 (minute_of b)
   \<and> hour_of a < 24 \<and> minute_of a < 60 \<and> hour_of b < 24 \<and> minute_of b < 60
   \<and> (k < 100 \<longrightarrow> length (pad2 k) = 2 \<and> list_all is_digit (pad2 k) \<and> py_int (pad2 k) = Inr (int k))
   \<and> (map_of win n = Some [w] \<longrightarrow> fmt_windows win n = fmt_range_pt (fst w) (snd w))
   \<and> (map_of win n = Some [w1, w2]
      \<longrightarrow> fmt_windows win n
          = fmt_range_pt (fst w1) (snd w1) @ '' e '' @ fmt_range_pt (fst w2) (snd w2))
   \<and> (map_of win n = Some (ws @ [w1, w2]) \<and> ws \<noteq> []
      \<longrightarrow> fmt_windows win n
          = concat (map (\<lambda>w. fmt_range_pt (fst w) (snd w) @ '', '') ws)
            @ fmt_range_pt (fst w1) (snd w1) @ '' e '' @ fmt_range_pt (fst w2) (snd w2))"
proof -
  let ?R = "\<lambda>(a, b). fmt_range_pt a b"
  have fmt: "fmt_range_pt a b
     = pad2 (hour_of a) @ ''h'' @ pad2 (minute_of a) @ [CHR 0xE2, CHR 0x80, CHR 0x93]
       @ pad2 (hour_of b) @ ''h'' @ pad2 (minute_of b)"
    by (simp add: fmt_range_pt_def strftime_hm_def en_dash_def)
  have pad: "k < 100 \<longrightarrow> length (pad2 k) = 2 \<and> list_all is_digit (pad2 k)
      \<and> py_int (pad2 k) = Inr (int k)"
    by (simp add: py_int_pad2) (simp add: pad2_def digit_is_digit)
  have one: "fmt_windows win n = fmt_range_pt (fst w) (snd w)" if "map_of win n = Some [w]"
    using that by (simp add: fmt_windows_def split_beta)
  have two: "fmt_windows win n
      = fmt_range_pt (fst w1) (snd w1) @ '' e '' @ fmt_range_pt (fst w2) (snd w2)"
    if "map_of win n = Some [w1, w2]"
    using that by (simp add: fmt_windows_def split_beta)
  have many: "fmt_windows win n
      = concat (map (\<lambda>w. fmt_range_pt (fst w) (snd w) @ '', '') ws)
        @ fmt_range_pt (fst w1) (snd w1) @ '' e '' @ fmt_range_pt (fst w2) (snd w2)"
    if m: "map_of win n = Some (ws @ [w1, w2])" and ne: "ws \<noteq> []"
  proof -
    let ?rs = "map ?R (ws @ [w1, w2])"
    have len: "length ?rs \<noteq> 1" "length ?rs \<noteq> 2" "?rs \<noteq> []"
      using ne by (cases ws; simp)+
    have bl: "butlast ?rs = map ?R ws @ [?R w1]"
      by (simp add: butlast_append)
    have "join '', '' (butlast ?rs) = concat (map (\<lambda>y. y @ '', '') (map ?R ws)) @ ?R w1"
      unfolding bl using ne by (intro join_snoc) simp
    moreover have "last ?rs = ?R w2" by simp
    moreover have "fmt_windows win n = join '', '' (butlast ?rs) @ '' e '' @ last ?rs"
      using len unfolding fmt_windows_def m by (simp add: Let_def)
    ultimately show ?thesis
      by (simp add: split_beta comp_def)
  qed
  from fmt pad one two many hour_of_lt minute_of_lt show ?thesis
    by blast
qed

text \<open>The claim C8 at \<open>example_windows\<close>.\<close>

theorem fmt_windows_spec_witness:
  "fmt_windows example_windows ''oven''
     = ''08h15'' @ [CHR 0xE2, CHR 0x80, CHR 0x93] @ ''09h00''
   \<and> fmt_windows example_windows ''pump''
     = ''00h00'' @ [CHR 0xE2, CHR 0x80, CHR 0x93] @ ''00h15'' @ '' e ''
       @ ''01h00'' @ [CHR 0xE2, CHR 0x80, CHR 0x93] @ ''01h15''
   \<and> fmt_windows example_windows ''heater''
     = ''00h00'' @ [CHR 0xE2, CHR 0x80, CHR 0x93] @ ''00h15'' @ '', ''
       @ ''01h00'' @ [CHR 0xE2, CHR 0x80, CHR 0x93] @ ''01h15'' @ '' e ''
       @ ''23h00'' @ [CHR 0xE2, CHR 0x80, CHR 0x93] @ ''00h00''
   \<and> (7 :: nat) < 100 \<and> pad2 7 = ''07'' \<and> py_int (pad2 7) = Inr 7"
proof -
  have r: "fmt_range_pt 29700000000 32400000000
             = ''08h15'' @ [CHR 0xE2, CHR 0x80, CHR 0x93] @ ''09h00''"
    "fmt_range_pt 0 900000000 = ''00h00'' @ [CHR 0xE2, CHR 0x80, CHR 0x93] @ ''00h15''"
    "fmt_range_pt 3600000000 4500000000
       = ''01h00'' @ [CHR 0xE2, CHR 0x80, CHR 0x93] @ ''01h15''"
    "fmt_range_pt 82800000000 86400000000
       = ''23h00'' @ [CHR 0xE2, CHR 0x80, CHR 0x93] @ ''00h00''"
    by code_simp+
  have p: "pad2 7 = ''07''" by code_simp
  have m: "map_of example_windows ''oven'' = Some [(29700000000, 32400000000)]"
    "map_of example_windows ''pump'' = Some [(0, 900000000), (3600000000, 4500000000)]"
    "map_of example_windows ''heater''
       = Some ([(0, 900000000)] @ [(3600000000, 4500000000), (82800000000, 86400000000)])"
    by (simp_all add: example_windows_def)
  show ?thesis
    using
      fmt_windows_spec [where win = example_windows and n = "''oven''" and k = 7
        and w = "(29700000000, 32400000000)" and a = 0 and b = 0
        and ws = "[]" and ?w1.0 = "(0, 0)" and ?w2.0 = "(0, 0)"]
      fmt_windows_spec [where win = example_windows and n = "''pump''" and k = 7
        and w = "(0, 0)" and a = 0 and b = 0
        and ws = "[]" and ?w1.0 = "(0, 900000000)" and ?w2.0 = "(3600000000, 4500000000)"]
      fmt_windows_spec [where win = example_windows and n = "''heater''" and k = 7
        and w = "(0, 0)" and a = 0 and b = 0
        and ws = "[(0, 900000000)]" and ?w1.0 = "(3600000000, 4500000000)"
        and ?w2.0 = "(82800000000, 86400000000)"]
    unfolding m by (simp add: r p)
qed

subsection \<open>Window builder: each load on its own\<close>

lemma wl_setdefault_append:
  "wl (setdefault_append ws m w) n = (if n = m then wl ws n @ [w] else wl ws n)"
  by (simp add: wl_def setdefault_append_def update_conv')

lemma keys_setdefault_append:
  "fst ` set (setdefault_append ws m w) = insert m (fst ` set ws)"
  by (simp add: setdefault_append_def dom_update)

lemma good_setdefault_append:
  "good_windows ws \<Longrightarrow> good_windows (setdefault_append ws m w)"
  unfolding good_windows_def wl_setdefault_append keys_setdefault_append
  by (auto simp: setdefault_append_def distinct_update)

lemma keys_delete: "fst ` set (AList.delete k al) = fst ` set al - {k}"
  by (induction al) auto

lemma close_absent_ok:
  assumes "distinct ns" and "set ns \<subseteq> fst ` set a"
  shows "\<exists>ws' a'. close_absent ts present ns (ws, a) = Inr (ws', a')
    \<and> (\<forall>n. wl ws' n
           = wl ws n @ (if n \<in> set ns \<and> n \<notin> present
                        then (case map_of a n of None \<Rightarrow> [] | Some start \<Rightarrow> [(start, ts)])
                        else []))
    \<and> (\<forall>n. map_of a' n = (if n \<in> set ns \<and> n \<notin> present then None else map_of a n))
    \<and> (distinct (map fst a) \<longrightarrow> distinct (map fst a'))
    \<and> (good_windows ws \<longrightarrow> good_windows ws')"
  using assms
proof (induction ns arbitrary: ws a)
  case Nil
  show ?case by simp
next
  case (Cons m ns)
  from Cons.prems have d: "distinct ns" and m: "m \<notin> set ns" by auto
  show ?case
  proof (cases "m \<in> present")
    case True
    from Cons.prems have "set ns \<subseteq> fst ` set a" by auto
    from Cons.IH [OF d this, of ws] obtain ws' a'
      where run: "close_absent ts present ns (ws, a) = Inr (ws', a')"
        and pw: "\<And>n. wl ws' n
           = wl ws n @ (if n \<in> set ns \<and> n \<notin> present
                        then (case map_of a n of None \<Rightarrow> [] | Some start \<Rightarrow> [(start, ts)])
                        else [])"
        and pa: "\<And>n. map_of a' n = (if n \<in> set ns \<and> n \<notin> present then None else map_of a n)"
        and dist: "distinct (map fst a) \<longrightarrow> distinct (map fst a')"
        and good: "good_windows ws \<longrightarrow> good_windows ws'"
      by blast
    have "close_absent ts present (m # ns) (ws, a) = Inr (ws', a')"
      using True run by simp
    moreover have "wl ws' n
           = wl ws n @ (if n \<in> set (m # ns) \<and> n \<notin> present
                        then (case map_of a n of None \<Rightarrow> [] | Some start \<Rightarrow> [(start, ts)])
                        else [])" for n
      using pw [of n] True by (cases "n = m") simp_all
    moreover have "map_of a' n
        = (if n \<in> set (m # ns) \<and> n \<notin> present then None else map_of a n)" for n
      using pa [of n] True by (cases "n = m") simp_all
    ultimately show ?thesis using dist good by blast
  next
    case False
    from Cons.prems have "m \<in> fst ` set a" by simp
    then obtain start where start: "map_of a m = Some start"
      by (cases "map_of a m") (auto simp: map_of_eq_None_iff)
    let ?ws = "setdefault_append ws m (start, ts)"
    let ?a = "AList.delete m a"
    from Cons.prems m have sub: "set ns \<subseteq> fst ` set ?a"
      unfolding keys_delete by auto
    from Cons.IH [OF d sub, of ?ws] obtain ws' a'
      where run: "close_absent ts present ns (?ws, ?a) = Inr (ws', a')"
        and pw: "\<And>n. wl ws' n
           = wl ?ws n @ (if n \<in> set ns \<and> n \<notin> present
                        then (case map_of ?a n of None \<Rightarrow> [] | Some start \<Rightarrow> [(start, ts)])
                        else [])"
        and pa: "\<And>n. map_of a' n = (if n \<in> set ns \<and> n \<notin> present then None else map_of ?a n)"
        and dist: "distinct (map fst ?a) \<longrightarrow> distinct (map fst a')"
        and good: "good_windows ?ws \<longrightarrow> good_windows ws'"
      by blast
    have "close_absent ts present (m # ns) (ws, a) = Inr (ws', a')"
      using False start run by simp
    moreover have "wl ws' n
           = wl ws n @ (if n \<in> set (m # ns) \<and> n \<notin> present
                        then (case map_of a n of None \<Rightarrow> [] | Some start \<Rightarrow> [(start, ts)])
                        else [])" for n
      using pw [of n] m False start
      by (cases "n = m") (simp_all add: wl_setdefault_append delete_conv')
    moreover have "map_of a' n
        = (if n \<in> set (m # ns) \<and> n \<notin> present then None else map_of a n)" for n
      using pa [of n] m False by (cases "n = m") (simp_all add: delete_conv')
    moreover have "distinct (map fst a) \<longrightarrow> distinct (map fst a')"
      using dist by (simp add: distinct_delete)
    moreover have "good_windows ws \<longrightarrow> good_windows ws'"
      using good by (simp add: good_setdefault_append)
    ultimately show ?thesis by blast
  qed
qed

lemma open_present_map_of:
  "map_of (open_present ts its a) n
     = (case map_of a n of
          Some start \<Rightarrow> Some start
        | None \<Rightarrow> if n \<in> name ` set its then Some ts else None)"
  by (induction its arbitrary: a) (auto simp: update_conv' split: option.splits)

lemma open_present_distinct:
  "distinct (map fst a) \<Longrightarrow> distinct (map fst (open_present ts its a))"
  by (induction its arbitrary: a) (auto simp: distinct_update)

lemma close_all_wl:
  "distinct (map fst a)
   \<Longrightarrow> wl (close_all e a ws) n
       = wl ws n @ (case map_of a n of None \<Rightarrow> [] | Some start \<Rightarrow> [(start, e)])"
proof (induction a arbitrary: ws)
  case Nil
  show ?case by simp
next
  case (Cons x a)
  obtain m start where x: "x = (m, start)" by (cases x)
  from Cons.prems x have d: "distinct (map fst a)" and m: "m \<notin> fst ` set a" by auto
  from m have none: "map_of a m = None" by (simp add: map_of_eq_None_iff)
  show ?case
    unfolding x using Cons.IH [OF d, of "setdefault_append ws m (start, e)"] none
    by (simp add: wl_setdefault_append)
qed

lemma close_all_good: "good_windows ws \<Longrightarrow> good_windows (close_all e a ws)"
  by (induction a arbitrary: ws) (auto simp: good_setdefault_append)

lemma slot_step:
  assumes "distinct (map fst a)"
  shows "\<exists>ws1 a1. close_absent (timestamp slot) (set (map name (data slot))) (map fst a) (ws, a)
             = Inr (ws1, a1)
    \<and> (\<forall>n. (wl ws1 n, map_of (open_present (timestamp slot) (data slot) a1) n)
           = step_load (timestamp slot) (present_in n slot) (wl ws n, map_of a n))
    \<and> distinct (map fst (open_present (timestamp slot) (data slot) a1))
    \<and> (good_windows ws \<longrightarrow> good_windows ws1)"
proof -
  let ?ts = "timestamp slot"
  let ?pr = "set (map name (data slot))"
  have sub: "set (map fst a) \<subseteq> fst ` set a" by simp
  from close_absent_ok [OF assms sub, of ?ts ?pr ws] obtain ws1 a1
    where run: "close_absent ?ts ?pr (map fst a) (ws, a) = Inr (ws1, a1)"
      and pw: "\<And>n. wl ws1 n
           = wl ws n @ (if n \<in> set (map fst a) \<and> n \<notin> ?pr
                        then (case map_of a n of None \<Rightarrow> [] | Some start \<Rightarrow> [(start, ?ts)])
                        else [])"
      and pa: "\<And>n. map_of a1 n = (if n \<in> set (map fst a) \<and> n \<notin> ?pr then None else map_of a n)"
      and dist: "distinct (map fst a1)"
      and good: "good_windows ws \<longrightarrow> good_windows ws1"
    using assms by blast
  have "(wl ws1 n, map_of (open_present ?ts (data slot) a1) n)
           = step_load ?ts (present_in n slot) (wl ws n, map_of a n)" for n
  proof (cases "map_of a n")
    case None
    then have "n \<notin> set (map fst a)" by (simp add: map_of_eq_None_iff)
    with None show ?thesis
      unfolding open_present_map_of pw [of n] pa [of n]
      by (simp add: step_load_def present_in_def)
  next
    case (Some start)
    then have "n \<in> set (map fst a)"
      by (metis map_of_eq_None_iff option.distinct(1) set_map)
    with Some show ?thesis
      unfolding open_present_map_of pw [of n] pa [of n]
      by (simp add: step_load_def present_in_def)
  qed
  with run good open_present_distinct [OF dist] show ?thesis by blast
qed

lemma windows_loop_track:
  assumes "slots \<noteq> []"
    and "dt_add (timestamp (last slots)) (timedelta_hours h) = Inr e"
    and "distinct (map fst a)"
  shows "\<exists>ws'. windows_loop slots h (ws, a) = Inr (ws', [])
    \<and> (\<forall>n. wl ws' n
           = track (map (\<lambda>s. (timestamp s, present_in n s)) slots) e (wl ws n, map_of a n))
    \<and> (good_windows ws \<longrightarrow> good_windows ws')"
  using assms
proof (induction slots arbitrary: ws a)
  case Nil
  then show ?case by simp
next
  case (Cons slot rest)
  let ?ts = "timestamp slot"
  from slot_step [OF Cons.prems(3), of slot ws] obtain ws1 a1
    where run: "close_absent ?ts (set (map name (data slot))) (map fst a) (ws, a) = Inr (ws1, a1)"
      and st: "\<And>n. (wl ws1 n, map_of (open_present ?ts (data slot) a1) n)
           = step_load ?ts (present_in n slot) (wl ws n, map_of a n)"
      and dist: "distinct (map fst (open_present ?ts (data slot) a1))"
      and good: "good_windows ws \<longrightarrow> good_windows ws1"
    by blast
  let ?a2 = "open_present ?ts (data slot) a1"
  show ?case
  proof (cases "rest = []")
    case True
    with Cons.prems(2) have e: "dt_add ?ts (timedelta_hours h) = Inr e" by simp
    have "windows_loop (slot # rest) h (ws, a) = Inr (close_all e ?a2 ws1, [])"
      using True run e by (simp add: Let_def)
    moreover have "wl (close_all e ?a2 ws1) n
        = track (map (\<lambda>s. (timestamp s, present_in n s)) (slot # rest)) e (wl ws n, map_of a n)"
      for n
      unfolding close_all_wl [OF dist] using st [of n, symmetric] True
      by (cases "map_of ?a2 n") simp_all
    moreover have "good_windows ws \<longrightarrow> good_windows (close_all e ?a2 ws1)"
      using good by (simp add: close_all_good)
    ultimately show ?thesis by blast
  next
    case False
    with Cons.prems(2) have e: "dt_add (timestamp (last rest)) (timedelta_hours h) = Inr e"
      by simp
    from Cons.IH [OF False e dist, of ws1] obtain ws'
      where loop: "windows_loop rest h (ws1, ?a2) = Inr (ws', [])"
        and tr: "\<And>n. wl ws' n
           = track (map (\<lambda>s. (timestamp s, present_in n s)) rest) e (wl ws1 n, map_of ?a2 n)"
        and good': "good_windows ws1 \<longrightarrow> good_windows ws'"
      by blast
    have "windows_loop (slot # rest) h (ws, a) = Inr (ws', [])"
      using False run loop by (simp add: Let_def)
    moreover have "wl ws' n
        = track (map (\<lambda>s. (timestamp s, present_in n s)) (slot # rest)) e (wl ws n, map_of a n)"
      for n
      unfolding tr [of n] st [of n] by simp
    ultimately show ?thesis using good good' by blast
  qed
qed

lemma step_load_acc:
  "step_load t p (l, opn)
     = (l @ fst (step_load t p ([], opn)), snd (step_load t p ([], opn)))"
  by (cases opn) (simp_all add: step_load_def)

lemma track_acc: "track xs e (l, opn) = l @ track xs e ([], opn)"
proof (induction xs arbitrary: l opn)
  case Nil
  show ?case by (cases opn) simp_all
next
  case (Cons x xs)
  obtain t p where x: "x = (t, p)" by (cases x)
  obtain d opn' where st: "step_load t p ([], opn) = (d, opn')"
    by (cases "step_load t p ([], opn)")
  have "track (x # xs) e (l, opn) = track xs e (l @ d, opn')"
    unfolding x using step_load_acc [of t p l opn] st by simp
  also have "\<dots> = l @ d @ track xs e ([], opn')"
    using Cons.IH [of "l @ d" opn'] by simp
  also have "d @ track xs e ([], opn') = track (x # xs) e ([], opn)"
    unfolding x using st Cons.IH [of d opn'] by simp
  finally show ?case .
qed

lemma track_nonempty:
  "track xs e (l, opn) \<noteq> [] \<longleftrightarrow> l \<noteq> [] \<or> opn \<noteq> None \<or> (\<exists>x \<in> set xs. snd x)"
proof (induction xs arbitrary: l opn)
  case Nil
  show ?case by (cases opn) simp_all
next
  case (Cons x xs)
  obtain t p where x: "x = (t, p)" by (cases x)
  show ?case
    unfolding x by (cases opn; cases p) (simp_all add: step_load_def Cons.IH)
qed

lemma track_last_present:
  "\<exists>l' start. track (xs @ [(t, True)]) e (l, opn) = l' @ [(start, e)]"
proof (induction xs arbitrary: l opn)
  case Nil
  show ?case by (cases opn) (simp_all add: step_load_def)
next
  case (Cons x xs)
  obtain t' p where x: "x = (t', p)" by (cases x)
  obtain l1 opn1 where st: "step_load t' p (l, opn) = (l1, opn1)"
    by (cases "step_load t' p (l, opn)")
  show ?case
    unfolding x using Cons.IH [of l1 opn1] st by simp
qed

lemma track_only_last:
  "\<forall>x \<in> set xs. \<not> snd x \<Longrightarrow> track (xs @ [(t, True)]) e (l, None) = l @ [(t, e)]"
proof (induction xs)
  case Nil
  show ?case by (simp add: step_load_def)
next
  case (Cons x xs)
  obtain t' p where x: "x = (t', p)" by (cases x)
  with Cons.prems have "\<not> p" by simp
  with Cons show ?case
    unfolding x by (simp add: step_load_def)
qed

lemma track_strict:
  assumes "sorted_wrt (<) (map fst xs)"
    and "\<forall>t \<in> set (map fst xs). lo < t \<and> t < e"
    and "lo < e"
    and "\<forall>start. opn = Some start \<longrightarrow> start \<le> lo"
  shows "sorted_wrt (\<lambda>w w'. snd w < fst w') (track xs e ([], opn))
     \<and> (\<forall>w \<in> set (track xs e ([], opn)). fst w < snd w \<and> snd w \<le> e \<and> lo < snd w)
     \<and> (\<forall>x \<in> set xs. snd x \<longleftrightarrow> covered (track xs e ([], opn)) (fst x))
     \<and> (case opn of
          None \<Rightarrow> \<forall>w \<in> set (track xs e ([], opn)). lo < fst w
        | Some start \<Rightarrow> \<exists>b R'. track xs e ([], opn) = (start, b) # R' \<and> (\<forall>w \<in> set R'. lo < fst w))"
  using assms
proof (induction xs arbitrary: lo opn)
  case Nil
  then show ?case by (cases opn) auto
next
  case (Cons x xs)
  obtain t p where x: "x = (t, p)" by (cases x)
  from Cons.prems x have lo: "lo < t" and te: "t < e"
    and srt: "sorted_wrt (<) (map fst xs)"
    and tl: "\<forall>t' \<in> set (map fst xs). t < t' \<and> t' < e"
    by auto
  show ?case
  proof (cases opn)
    case None
    show ?thesis
    proof (cases p)
      case False
      let ?R = "track xs e ([], None)"
      have eq: "track (x # xs) e ([], opn) = ?R"
        unfolding x None using False by (simp add: step_load_def)
      from Cons.IH [OF srt tl te, of None]
      have ch: "sorted_wrt (\<lambda>w w'. snd w < fst w') ?R"
        and wn: "\<forall>w \<in> set ?R. fst w < snd w \<and> snd w \<le> e \<and> t < snd w"
        and cv: "\<forall>x \<in> set xs. snd x \<longleftrightarrow> covered ?R (fst x)"
        and st: "\<forall>w \<in> set ?R. t < fst w"
        by simp_all
      have nc: "\<not> covered ?R t"
        using st by (auto simp: covered_def)
      show ?thesis
        apply (simp only: eq)
        using ch wn cv st lo nc False by (auto simp: None x)
    next
      case True
      let ?R = "track xs e ([], Some t)"
      have eq: "track (x # xs) e ([], opn) = ?R"
        unfolding x None using True by (simp add: step_load_def)
      from Cons.IH [OF srt tl te, of "Some t"]
      have ch: "sorted_wrt (\<lambda>w w'. snd w < fst w') ?R"
        and wn: "\<forall>w \<in> set ?R. fst w < snd w \<and> snd w \<le> e \<and> t < snd w"
        and cv: "\<forall>x \<in> set xs. snd x \<longleftrightarrow> covered ?R (fst x)"
        and st: "\<exists>b R'. ?R = (t, b) # R' \<and> (\<forall>w \<in> set R'. t < fst w)"
        by simp_all
      from st obtain b R' where R: "?R = (t, b) # R'" and R': "\<forall>w \<in> set R'. t < fst w"
        by blast
      from wn R have "t < b" by simp
      then have co: "covered ?R t"
        unfolding R by (simp add: covered_def)
      have stl: "\<forall>w \<in> set ?R. lo < fst w"
        unfolding R using R' lo by auto
      show ?thesis
        apply (simp only: eq)
        using co stl True ch wn cv lo by (auto simp: None x)
    qed
  next
    case (Some start)
    with Cons.prems(4) have sl: "start \<le> lo" by simp
    show ?thesis
    proof (cases p)
      case True
      let ?R = "track xs e ([], Some start)"
      have eq: "track (x # xs) e ([], opn) = ?R"
        unfolding x Some using True by (simp add: step_load_def)
      from sl lo have "\<forall>s. Some start = Some s \<longrightarrow> s \<le> t" by simp
      from Cons.IH [OF srt tl te this]
      have ch: "sorted_wrt (\<lambda>w w'. snd w < fst w') ?R"
        and wn: "\<forall>w \<in> set ?R. fst w < snd w \<and> snd w \<le> e \<and> t < snd w"
        and cv: "\<forall>x \<in> set xs. snd x \<longleftrightarrow> covered ?R (fst x)"
        and st: "\<exists>b R'. ?R = (start, b) # R' \<and> (\<forall>w \<in> set R'. t < fst w)"
        by simp_all
      from st obtain b R' where R: "?R = (start, b) # R'" and R': "\<forall>w \<in> set R'. t < fst w"
        by blast
      from wn R have "t < b" by simp
      with sl lo have co: "covered ?R t"
        unfolding R by (simp add: covered_def)
      have stl: "\<exists>b R'. ?R = (start, b) # R' \<and> (\<forall>w \<in> set R'. lo < fst w)"
        using R R' lo by auto
      have wn': "\<forall>w \<in> set ?R. fst w < snd w \<and> snd w \<le> e \<and> lo < snd w"
        using wn lo by auto
      have cv': "\<forall>x \<in> set ((t, p) # xs). snd x \<longleftrightarrow> covered ?R (fst x)"
        using cv co True by simp
      show ?thesis
        apply (simp only: eq)
        using ch wn' cv' stl by (simp add: Some x)
    next
      case False
      let ?R = "track xs e ([], None)"
      have eq: "track (x # xs) e ([], opn) = (start, t) # ?R"
        unfolding x Some using False track_acc [of xs e "[(start, t)]" None]
        by (simp add: step_load_def)
      from Cons.IH [OF srt tl te, of None]
      have ch: "sorted_wrt (\<lambda>w w'. snd w < fst w') ?R"
        and wn: "\<forall>w \<in> set ?R. fst w < snd w \<and> snd w \<le> e \<and> t < snd w"
        and cv: "\<forall>x \<in> set xs. snd x \<longleftrightarrow> covered ?R (fst x)"
        and st: "\<forall>w \<in> set ?R. t < fst w"
        by simp_all
      have c1: "sorted_wrt (\<lambda>w w'. snd w < fst w') ((start, t) # ?R)"
        using ch st by simp
      have c2: "\<forall>w \<in> set ((start, t) # ?R). fst w < snd w \<and> snd w \<le> e \<and> lo < snd w"
        using wn sl lo te by auto
      have nc: "\<not> covered ((start, t) # ?R) t"
        using st by (auto simp: covered_def)
      have same: "covered ((start, t) # ?R) t' \<longleftrightarrow> covered ?R t'" if "t < t'" for t'
        using that by (auto simp: covered_def)
      have c3: "\<forall>x \<in> set (x # xs). snd x \<longleftrightarrow> covered ((start, t) # ?R) (fst x)"
        unfolding x using False nc cv tl same by auto
      have c4: "\<exists>b R'. (start, t) # ?R = (start, b) # R' \<and> (\<forall>w \<in> set R'. lo < fst w)"
        using st lo by auto
      show ?thesis
        apply (simp only: eq)
        using c1 c2 c3 c4 by (simp add: Some)
    qed
  qed
qed

lemma guess_slot_hours_lower: "1 / 10 ^ 9 \<le> guess_slot_hours p"
  by (simp add: guess_slot_hours_def Let_def split: list.splits)

lemma floor_le_round_half_even: "\<lfloor>x\<rfloor> \<le> round_half_even x"
  by (simp add: round_half_even_def Let_def)

lemma timedelta_pos: "0 < timedelta_hours (guess_slot_hours p)"
proof -
  have "3 \<le> guess_slot_hours p * 3600000000"
    using guess_slot_hours_lower [of p] by simp
  then have "3 \<le> \<lfloor>guess_slot_hours p * 3600000000\<rfloor>"
    by (simp add: le_floor_iff)
  with floor_le_round_half_even [of "guess_slot_hours p * 3600000000"] show ?thesis
    unfolding timedelta_hours_def by linarith
qed

lemma sorted_le_last: "sorted xs \<Longrightarrow> x \<in> set xs \<Longrightarrow> x \<le> last xs"
  by (induction xs) auto

lemma sorted_hd_le: "sorted xs \<Longrightarrow> x \<in> set xs \<Longrightarrow> hd xs \<le> x"
  by (cases xs) auto

lemma wl_Nil: "wl [] n = []"
  by (simp add: wl_def)

lemma good_windows_Nil: "good_windows []"
  by (simp add: good_windows_def wl_Nil)

lemma load_windows_track:
  assumes "schedule p \<noteq> []" and "end_representable p"
  shows "\<exists>ws. load_windows_15m p = Inr ws \<and> good_windows ws
    \<and> (\<forall>n. wl ws n
           = track (map (\<lambda>s. (timestamp s, present_in n s)) (schedule p))
               (timestamp (last (schedule p)) + timedelta_hours (guess_slot_hours p))
               ([], None))"
proof -
  let ?e = "timestamp (last (schedule p)) + timedelta_hours (guess_slot_hours p)"
  from assms have e: "dt_add (timestamp (last (schedule p))) (timedelta_hours (guess_slot_hours p))
      = Inr ?e"
    by (simp add: end_representable_def dt_add_def Let_def)
  have d: "distinct (map fst ([] :: (string \<times> int) list))" by simp
  from windows_loop_track [OF assms(1) e d, of "[]"] obtain ws
    where "windows_loop (schedule p) (guess_slot_hours p) ([], []) = Inr (ws, [])"
      and "\<And>n. wl ws n
           = track (map (\<lambda>s. (timestamp s, present_in n s)) (schedule p)) ?e
               (wl [] n, map_of [] n)"
      and "good_windows ws"
    using good_windows_Nil by blast
  then show ?thesis
    by (simp add: load_windows_15m_def wl_Nil)
qed

lemma windows_loop_overflow:
  assumes "slots \<noteq> []"
    and "dt_add (timestamp (last slots)) (timedelta_hours h) = Inl err"
    and "distinct (map fst a)"
  shows "windows_loop slots h (ws, a) = Inl err"
  using assms
proof (induction slots arbitrary: ws a)
  case Nil
  then show ?case by simp
next
  case (Cons slot rest)
  from slot_step [OF Cons.prems(3), of slot ws] obtain ws1 a1
    where run: "close_absent (timestamp slot) (set (map name (data slot))) (map fst a) (ws, a)
                  = Inr (ws1, a1)"
      and dist: "distinct (map fst (open_present (timestamp slot) (data slot) a1))"
    by blast
  show ?case
  proof (cases "rest = []")
    case True
    with Cons.prems(2) run show ?thesis by (simp add: Let_def)
  next
    case False
    with Cons.prems(2) have "dt_add (timestamp (last rest)) (timedelta_hours h) = Inl err"
      by simp
    from Cons.IH [OF False this dist] False run show ?thesis
      by (simp add: Let_def)
  qed
qed

text \<open>When the end instant is no datetime the builder raises and returns no mapping.\<close>

lemma load_windows_overflow:
  assumes "\<not> end_representable p"
  shows "load_windows_15m p = Inl OverflowError"
proof -
  from assms have ne: "schedule p \<noteq> []"
    and ov: "dt_add (timestamp (last (schedule p))) (timedelta_hours (guess_slot_hours p))
      = Inl OverflowError"
    by (auto simp: end_representable_def dt_add_def Let_def)
  from windows_loop_overflow [OF ne ov, of "[]" "[]"] show ?thesis
    by (simp add: load_windows_15m_def)
qed

lemma wl_map_of: "wl ws n = l \<Longrightarrow> l \<noteq> [] \<Longrightarrow> map_of ws n = Some l"
  by (cases "map_of ws n") (simp_all add: wl_def)

lemma timedelta_quarter: "timedelta_hours (1 / 4) = 900000000"
  by (simp add: timedelta_hours_def round_half_even_def)

text \<open>
  Claim C2, as amended. For every schedule whose timestamps are strictly increasing and
  whose end instant is a datetime, the builder returns a mapping in which, for every load,
  the windows are listed with strictly increasing starts, each window ends before the next
  starts, each is non-empty and ends no later than the last timestamp plus the slot
  duration, and a slot's timestamp lies in one of the load's windows exactly when the load
  is present in that slot.
\<close>

theorem windows_cover_and_increase:
  assumes "sorted_wrt (<) (map timestamp (schedule p))" and "end_representable p"
  shows "\<exists>ws. load_windows_15m p = Inr ws
     \<and> (\<forall>n. sorted_wrt (\<lambda>w w'. fst w < fst w' \<and> snd w < fst w') (wl ws n)
          \<and> (\<forall>w \<in> set (wl ws n). fst w < snd w
                \<and> snd w \<le> timestamp (last (schedule p)) + timedelta_hours (guess_slot_hours p))
          \<and> (\<forall>s \<in> set (schedule p). present_in n s \<longleftrightarrow> covered (wl ws n) (timestamp s)))"
proof (cases "schedule p = []")
  case True
  then have "load_windows_15m p = Inr []"
    by (simp add: load_windows_15m_def)
  with True show ?thesis by (simp add: wl_Nil)
next
  case False
  let ?ss = "schedule p"
  let ?e = "timestamp (last ?ss) + timedelta_hours (guess_slot_hours p)"
  let ?lo = "hd (map timestamp ?ss) - 1"
  from load_windows_track [OF False assms(2)] obtain ws
    where run: "load_windows_15m p = Inr ws"
      and tr: "\<And>n. wl ws n = track (map (\<lambda>s. (timestamp s, present_in n s)) ?ss) ?e ([], None)"
    by blast
  have srt: "sorted (map timestamp ?ss)"
    using assms(1) by (rule strict_sorted_imp_sorted)
  have last: "last (map timestamp ?ss) = timestamp (last ?ss)"
    using False by (simp add: last_map)
  have bounds: "\<forall>t \<in> set (map timestamp ?ss). ?lo < t \<and> t < ?e"
  proof
    fix t assume t: "t \<in> set (map timestamp ?ss)"
    from sorted_hd_le [OF srt t] have "?lo < t" by simp
    moreover from sorted_le_last [OF srt t] last timedelta_pos [of p] have "t < ?e" by simp
    ultimately show "?lo < t \<and> t < ?e" ..
  qed
  have loe: "?lo < ?e"
  proof -
    from False have "timestamp (last ?ss) \<in> set (map timestamp ?ss)" by simp
    with bounds show ?thesis by force
  qed
  have props: "sorted_wrt (\<lambda>w w'. fst w < fst w' \<and> snd w < fst w') (wl ws n)
      \<and> (\<forall>w \<in> set (wl ws n). fst w < snd w \<and> snd w \<le> ?e)
      \<and> (\<forall>s \<in> set ?ss. present_in n s \<longleftrightarrow> covered (wl ws n) (timestamp s))" for n
  proof -
    let ?xs = "map (\<lambda>s. (timestamp s, present_in n s)) ?ss"
    have fsts: "map fst ?xs = map timestamp ?ss" by (simp add: comp_def)
    have a1: "sorted_wrt (<) (map fst ?xs)" unfolding fsts by (rule assms(1))
    have a2: "\<forall>t \<in> set (map fst ?xs). ?lo < t \<and> t < ?e" unfolding fsts by (rule bounds)
    have a4: "\<forall>start. (None :: int option) = Some start \<longrightarrow> start \<le> ?lo" by simp
    from track_strict [OF a1 a2 loe a4]
    have ch: "sorted_wrt (\<lambda>w w'. snd w < fst w') (wl ws n)"
      and wn: "\<forall>w \<in> set (wl ws n). fst w < snd w \<and> snd w \<le> ?e \<and> ?lo < snd w"
      and cv: "\<forall>x \<in> set ?xs. snd x \<longleftrightarrow> covered (wl ws n) (fst x)"
      unfolding tr [of n] by simp_all
    have "sorted_wrt (\<lambda>w w'. fst w < fst w' \<and> snd w < fst w') (wl ws n)"
      using ch
    proof (rule sorted_wrt_mono_rel [rotated])
      fix w w'
      assume "w \<in> set (wl ws n)" "w' \<in> set (wl ws n)" "snd w < fst w'"
      with wn show "fst w < fst w' \<and> snd w < fst w'" by force
    qed
    moreover from cv have "\<forall>s \<in> set ?ss. present_in n s \<longleftrightarrow> covered (wl ws n) (timestamp s)"
      by simp
    ultimately show ?thesis using wn by blast
  qed
  from run props show ?thesis by blast
qed

text \<open>
  The claim C2 as stated (for every sorted schedule) fails: three slots share one timestamp,
  which a sorted schedule may do; load A is in the first and the third. Its windows are
  \<open>[0, 0)\<close> and \<open>[0, 0 + 15 min)\<close>: the starts do not increase strictly, and the second
  slot, where A is absent, lies inside the second window.
\<close>

theorem sorted_schedule_counterexample:
  "sorted (map timestamp
      [\<lparr>timestamp = 0, data = [\<lparr>name = ''A'', value_kw = 1\<rparr>]\<rparr>, \<lparr>timestamp = 0, data = []\<rparr>,
       \<lparr>timestamp = 0, data = [\<lparr>name = ''A'', value_kw = 1\<rparr>]\<rparr>])
   \<and> load_windows_15m
       \<lparr>schedule =
          [\<lparr>timestamp = 0, data = [\<lparr>name = ''A'', value_kw = 1\<rparr>]\<rparr>, \<lparr>timestamp = 0, data = []\<rparr>,
           \<lparr>timestamp = 0, data = [\<lparr>name = ''A'', value_kw = 1\<rparr>]\<rparr>]\<rparr>
     = Inr [(''A'', [(0, 0), (0, 900000000)])]
   \<and> \<not> sorted_wrt (\<lambda>w w'. fst w < fst w') [(0 :: int, 0 :: int), (0, 900000000)]
   \<and> \<not> present_in ''A'' \<lparr>timestamp = 0, data = []\<rparr>
   \<and> covered [(0, 0), (0, 900000000)] 0"
  by (simp add: load_windows_15m_def guess_slot_hours_def total_seconds_def timedelta_quarter
      dt_add_def MAXDT_def setdefault_append_def Let_def present_in_def covered_def)

text \<open>
  Claim C4, as amended. For a non-empty schedule whose end instant is a datetime, the builder
  returns a mapping in which every load present in the final slot has as its last window
  one that ends at the last timestamp plus \<open>timedelta(hours=slot_h)\<close>, the inferred slot
  duration as a whole number of microseconds; a load present in the final slot only has
  exactly one window, from the last timestamp to that end instant, so that its span is
  \<open>timedelta(hours=slot_h)\<close>.
\<close>

theorem final_slot_closes_open_windows:
  assumes "schedule p = ss @ [s_last]" and "end_representable p"
  shows "\<exists>ws. load_windows_15m p = Inr ws
    \<and> (\<forall>n. present_in n s_last
          \<longrightarrow> (\<exists>l start. map_of ws n
                 = Some (l @ [(start, timestamp s_last + timedelta_hours (guess_slot_hours p))])))
    \<and> (\<forall>n. present_in n s_last \<and> (\<forall>s \<in> set ss. \<not> present_in n s)
          \<longrightarrow> map_of ws n
              = Some [(timestamp s_last,
                       timestamp s_last + timedelta_hours (guess_slot_hours p))])"
proof -
  let ?e = "timestamp s_last + timedelta_hours (guess_slot_hours p)"
  from assms(1) have ne: "schedule p \<noteq> []" and last: "last (schedule p) = s_last"
    by simp_all
  from load_windows_track [OF ne assms(2)] obtain ws
    where run: "load_windows_15m p = Inr ws"
      and tr: "\<And>n. wl ws n = track (map (\<lambda>s. (timestamp s, present_in n s)) (schedule p)) ?e
                                ([], None)"
    unfolding last by blast
  have one: "\<exists>l start. map_of ws n = Some (l @ [(start, ?e)])" if "present_in n s_last" for n
  proof -
    have w: "wl ws n
        = track (map (\<lambda>s. (timestamp s, present_in n s)) ss @ [(timestamp s_last, True)]) ?e
            ([], None)"
      unfolding tr [of n] assms(1) using that by simp
    from track_last_present
      [of "map (\<lambda>s. (timestamp s, present_in n s)) ss" "timestamp s_last" ?e "[]" None]
    obtain l start where "wl ws n = l @ [(start, ?e)]"
      unfolding w by blast
    then have "map_of ws n = Some (l @ [(start, ?e)])"
      by (rule wl_map_of) simp
    then show ?thesis by blast
  qed
  have two: "map_of ws n = Some [(timestamp s_last, ?e)]"
    if "present_in n s_last" and "\<forall>s \<in> set ss. \<not> present_in n s" for n
  proof -
    have "\<forall>x \<in> set (map (\<lambda>s. (timestamp s, present_in n s)) ss). \<not> snd x"
      using that(2) by simp
    from track_only_last [OF this, of "timestamp s_last" ?e "[]"]
    have "wl ws n = [(timestamp s_last, ?e)]"
      unfolding tr [of n] assms(1) using that(1) by simp
    then show ?thesis
      by (rule wl_map_of) simp
  qed
  from run one two show ?thesis by blast
qed

text \<open>
  The claim C4 as stated fails in two ways. With one slot at 23:50 of 9999-12-31 the end
  instant is past the last datetime and the builder raises \<open>OverflowError\<close>: no window
  is closed. With two slots one microsecond apart the inferred duration is raised to
  \<open>1e-9\<close> hours, that is 3.6 microseconds, and \<open>timedelta(hours=slot_h)\<close> is 4
  microseconds: load B, present in the final slot only, gets one window of 4 microseconds,
  which is not the slot duration.
\<close>

theorem final_slot_counterexample:
  "load_windows_15m
     \<lparr>schedule = [\<lparr>timestamp = 315537897000000000,
                    data = [\<lparr>name = ''A'', value_kw = 1\<rparr>]\<rparr>]\<rparr>
     = Inl OverflowError
   \<and> load_windows_15m
       \<lparr>schedule = [\<lparr>timestamp = 63840902400000000, data = []\<rparr>,
                    \<lparr>timestamp = 63840902400000001,
                     data = [\<lparr>name = ''B'', value_kw = 1\<rparr>]\<rparr>]\<rparr>
     = Inr [(''B'', [(63840902400000001, 63840902400000005)])]
   \<and> guess_slot_hours
       \<lparr>schedule = [\<lparr>timestamp = 63840902400000000, data = []\<rparr>,
                    \<lparr>timestamp = 63840902400000001,
                     data = [\<lparr>name = ''B'', value_kw = 1\<rparr>]\<rparr>]\<rparr> * 3600000000
     = 18 / 5
   \<and> real_of_int (63840902400000005 - 63840902400000001) \<noteq> 18 / 5"
  by code_simp

text \<open>
  Claim C10. For every schedule whose end instant is a datetime, the builder returns a
  mapping whose keys are exactly the loads present in at least one slot, pairwise
  different, and no key holds an empty list of windows.
\<close>

theorem windows_keys_nonempty:
  assumes "end_representable p"
  shows "\<exists>ws. load_windows_15m p = Inr ws
    \<and> (\<forall>n. n \<in> fst ` set ws \<longleftrightarrow> (\<exists>s \<in> set (schedule p). present_in n s))
    \<and> (\<forall>n l. (n, l) \<in> set ws \<longrightarrow> l \<noteq> [])
    \<and> distinct (map fst ws)"
proof (cases "schedule p = []")
  case True
  then have "load_windows_15m p = Inr []"
    by (simp add: load_windows_15m_def)
  with True show ?thesis by simp
next
  case False
  let ?e = "timestamp (last (schedule p)) + timedelta_hours (guess_slot_hours p)"
  from load_windows_track [OF False assms] obtain ws
    where run: "load_windows_15m p = Inr ws"
      and good: "good_windows ws"
      and tr: "\<And>n. wl ws n = track (map (\<lambda>s. (timestamp s, present_in n s)) (schedule p)) ?e
                                ([], None)"
    by blast
  from good have dist: "distinct (map fst ws)"
    and keys: "\<And>n. n \<in> fst ` set ws \<longleftrightarrow> wl ws n \<noteq> []"
    by (simp_all add: good_windows_def)
  have k: "n \<in> fst ` set ws \<longleftrightarrow> (\<exists>s \<in> set (schedule p). present_in n s)" for n
    unfolding keys tr [of n] track_nonempty by simp
  have ne: "l \<noteq> []" if "(n, l) \<in> set ws" for n l
  proof -
    from that dist have "map_of ws n = Some l" by simp
    then have "wl ws n = l" by (simp add: wl_def)
    moreover from that have "n \<in> fst ` set ws" by force
    ultimately show ?thesis using keys [of n] by simp
  qed
  from run k ne dist show ?thesis by blast
qed

lemma example_gap_strict: "sorted_wrt (<) (map timestamp (schedule example_gap))"
  by (simp add: example_gap_def)

lemma example_gap_hours: "guess_slot_hours example_gap = 1 / 4"
  by (simp add: example_gap_def guess_slot_hours_def total_seconds_def)

lemma example_gap_end: "end_representable example_gap"
  unfolding end_representable_def example_gap_hours timedelta_quarter
  by (simp add: example_gap_def MAXDT_def)

lemma example_gap_windows:
  "load_windows_15m example_gap
     = Inr [(''A'', [(0, 900000000), (1800000000, 2700000000)]),
            (''B'', [(1800000000, 2700000000)])]"
  unfolding load_windows_15m_def example_gap_hours
  by (simp add: example_gap_def timedelta_quarter dt_add_def MAXDT_def setdefault_append_def
      Let_def)

text \<open>The amended claim C2 at \<open>example_gap\<close>, for load A.\<close>

theorem windows_cover_and_increase_witness:
  "sorted_wrt (<) (map timestamp (schedule example_gap))
   \<and> end_representable example_gap
   \<and> load_windows_15m example_gap
     = Inr [(''A'', [(0, 900000000), (1800000000, 2700000000)]),
            (''B'', [(1800000000, 2700000000)])]
   \<and> sorted_wrt (\<lambda>w w'. fst w < fst w' \<and> snd w < fst w')
       [(0, 900000000), (1800000000, 2700000000 :: int)]
   \<and> covered [(0, 900000000), (1800000000, 2700000000)] 0
   \<and> \<not> covered [(0, 900000000), (1800000000, 2700000000)] 900000000
   \<and> covered [(0, 900000000), (1800000000, 2700000000)] 1800000000"
proof -
  let ?W = "[(''A'', [(0, 900000000), (1800000000, 2700000000)]),
            (''B'', [(1800000000, 2700000000 :: int)])]"
  have w: "wl ?W ''A'' = [(0, 900000000), (1800000000, 2700000000)]"
    by (simp add: wl_def)
  from windows_cover_and_increase [OF example_gap_strict example_gap_end]
  have inc: "sorted_wrt (\<lambda>w w'. fst w < fst w' \<and> snd w < fst w') (wl ?W ''A'')"
    and cov: "\<forall>s \<in> set (schedule example_gap).
                present_in ''A'' s \<longleftrightarrow> covered (wl ?W ''A'') (timestamp s)"
    unfolding example_gap_windows by auto
  from cov have "covered (wl ?W ''A'') 0" "\<not> covered (wl ?W ''A'') 900000000"
    "covered (wl ?W ''A'') 1800000000"
    by (simp_all add: example_gap_def present_in_def)
  with inc example_gap_strict example_gap_end example_gap_windows show ?thesis
    unfolding w by blast
qed

text \<open>The claim C4 at \<open>example_gap\<close>, for load B.\<close>

theorem final_slot_closes_open_windows_witness:
  "schedule example_gap
     = [\<lparr>timestamp = 0, data = [\<lparr>name = ''A'', value_kw = 1\<rparr>]\<rparr>,
        \<lparr>timestamp = 900000000, data = []\<rparr>]
       @ [\<lparr>timestamp = 1800000000,
           data = [\<lparr>name = ''A'', value_kw = 1\<rparr>, \<lparr>name = ''B'', value_kw = 2\<rparr>]\<rparr>]
   \<and> end_representable example_gap
   \<and> load_windows_15m example_gap
     = Inr [(''A'', [(0, 900000000), (1800000000, 2700000000)]),
            (''B'', [(1800000000, 2700000000)])]
   \<and> timedelta_hours (guess_slot_hours example_gap) = 900000000
   \<and> map_of [(''A'', [(0, 900000000), (1800000000, 2700000000)]),
             (''B'', [(1800000000, 2700000000 :: int)])] ''B''
     = Some [(1800000000, 1800000000 + timedelta_hours (guess_slot_hours example_gap))]"
proof -
  let ?s = "\<lparr>timestamp = 1800000000,
           data = [\<lparr>name = ''A'', value_kw = 1\<rparr>, \<lparr>name = ''B'', value_kw = 2\<rparr>]\<rparr>"
  let ?ss = "[\<lparr>timestamp = 0, data = [\<lparr>name = ''A'', value_kw = 1\<rparr>]\<rparr>,
        \<lparr>timestamp = 900000000, data = []\<rparr>]"
  have sp: "schedule example_gap = ?ss @ [?s]"
    by (simp add: example_gap_def)
  have pr: "present_in ''B'' ?s \<and> (\<forall>s \<in> set ?ss. \<not> present_in ''B'' s)"
    by (simp add: present_in_def)
  from final_slot_closes_open_windows [OF sp example_gap_end] pr
  have "map_of [(''A'', [(0, 900000000), (1800000000, 2700000000)]),
             (''B'', [(1800000000, 2700000000 :: int)])] ''B''
     = Some [(timestamp ?s, timestamp ?s + timedelta_hours (guess_slot_hours example_gap))]"
    unfolding example_gap_windows by blast
  then have "map_of [(''A'', [(0, 900000000), (1800000000, 2700000000)]),
             (''B'', [(1800000000, 2700000000 :: int)])] ''B''
     = Some [(1800000000, 1800000000 + timedelta_hours (guess_slot_hours example_gap))]"
    by simp
  moreover have "timedelta_hours (guess_slot_hours example_gap) = 900000000"
    unfolding example_gap_hours by (rule timedelta_quarter)
  ultimately show ?thesis
    using sp example_gap_end example_gap_windows by blast
qed

text \<open>The claim C10 at \<open>example_gap\<close>.\<close>

theorem windows_keys_nonempty_witness:
  "end_representable example_gap
   \<and> load_windows_15m example_gap
     = Inr [(''A'', [(0, 900000000), (1800000000, 2700000000)]),
            (''B'', [(1800000000, 2700000000)])]
   \<and> ''A'' \<in> fst ` set [(''A'', [(0, 900000000), (1800000000, 2700000000)]),
                          (''B'', [(1800000000, 2700000000 :: int)])]
   \<and> ''C'' \<notin> fst ` set [(''A'', [(0, 900000000), (1800000000, 2700000000)]),
                          (''B'', [(1800000000, 2700000000 :: int)])]
   \<and> [(1800000000, 2700000000 :: int)] \<noteq> []"
proof -
  let ?W = "[(''A'', [(0, 900000000), (1800000000, 2700000000)]),
            (''B'', [(1800000000, 2700000000 :: int)])]"
  from windows_keys_nonempty [OF example_gap_end]
  have keys: "\<forall>n. n \<in> fst ` set ?W \<longleftrightarrow> (\<exists>s \<in> set (schedule example_gap). present_in n s)"
    and ne: "\<forall>n l. (n, l) \<in> set ?W \<longrightarrow> l \<noteq> []"
    unfolding example_gap_windows by auto
  have a: "\<exists>s \<in> set (schedule example_gap). present_in ''A'' s"
    by (simp add: example_gap_def present_in_def)
  have c: "\<not> (\<exists>s \<in> set (schedule example_gap). present_in ''C'' s)"
    by (simp add: example_gap_def present_in_def)
  from keys a have "''A'' \<in> fst ` set ?W" by blast
  moreover from keys c have "''C'' \<notin> fst ` set ?W" by blast
  moreover from ne have "[(1800000000, 2700000000 :: int)] \<noteq> []" by simp
  ultimately show ?thesis
    using example_gap_end example_gap_windows by blast
qed

subsection \<open>The empty schedule\<close>

text \<open>
  Claim C7. On the empty schedule the aggregator returns two empty maps, total energy 0,
  peak power 0 and no peak timestamp, and the window builder returns the empty mapping;
  neither raises.
\<close>

theorem empty_schedule_degrades:
  "compute_from_schedule \<lparr>schedule = []\<rparr> = ([], [], 0, 0, [])
   \<and> load_windows_15m \<lparr>schedule = []\<rparr> = Inr []"
  by (simp add: compute_from_schedule_def load_windows_15m_def py_round3_0)

end
